theory Spec2Isabelle
  imports Main "HOL-Library.Sublist" "HOL-Library.AList"
begin

section \<open>JavaScript values used by the generator\<close>

text \<open>
  The metadata and annotation maps of the intermediate representation are
  \<^verbatim>\<open>Map<string, unknown>\<close>. The adapters store strings, numbers, booleans and
  \<^verbatim>\<open>undefined\<close> in them, so those are the values modelled. A JavaScript \<^verbatim>\<open>Map\<close>
  keeps its keys unique and in insertion order: it is an association list,
  \<^verbatim>\<open>set\<close> is \<open>AList.update\<close> (replace in place, else append) and \<^verbatim>\<open>get\<close> is
  \<open>map_of\<close>.
\<close>

datatype JsValue = JStr string | JNum int | JBool bool | JUndefined

type_synonym 'v JsMap = "(string \<times> 'v) list"

definition map_set :: "string \<Rightarrow> 'v \<Rightarrow> 'v JsMap \<Rightarrow> 'v JsMap" where
  "map_set k v m = AList.update k v m"

definition map_get :: "'v JsMap \<Rightarrow> string \<Rightarrow> 'v option" where
  "map_get m k = map_of m k"

text \<open>\<^verbatim>\<open>new Map(pairs)\<close>: the pairs are set one after the other.\<close>

definition new_Map :: "(string \<times> 'v) list \<Rightarrow> 'v JsMap" where
  "new_Map pairs = foldl (\<lambda>m (k, v). map_set k v m) [] pairs"

definition digitChar :: "nat \<Rightarrow> char" where
  "digitChar d = ''0123456789'' ! d"

fun natToString :: "nat \<Rightarrow> string" where
  "natToString n =
     (if n < 10 then [digitChar n] else natToString (n div 10) @ [digitChar (n mod 10)])"

declare natToString.simps [simp del]

definition intToString :: "int \<Rightarrow> string" where
  "intToString i = (if i < 0 then ''-'' @ natToString (nat (- i)) else natToString (nat i))"

text \<open>Truthiness, as \<^verbatim>\<open>if (x)\<close> and \<^verbatim>\<open>x || d\<close> test it.\<close>

definition truthy :: "string \<Rightarrow> bool" where
  "truthy s = (s \<noteq> [])"

fun truthyValue :: "JsValue \<Rightarrow> bool" where
  "truthyValue (JStr s) = truthy s"
| "truthyValue (JNum i) = (i \<noteq> 0)"
| "truthyValue (JBool b) = b"
| "truthyValue JUndefined = False"

text \<open>
  What a template literal prints for a value. Numbers are the integers the adapters
  store (a heading level, a count), which print as decimal digits; JavaScript's exponent
  notation for magnitudes from \<open>10\<^sup>2\<^sup>1\<close> on, and values that are not integers, are
  outside the model.
\<close>

fun valueToString :: "JsValue \<Rightarrow> string" where
  "valueToString (JStr s) = s"
| "valueToString (JNum i) = intToString i"
| "valueToString (JBool b) = (if b then ''true'' else ''false'')"
| "valueToString JUndefined = ''undefined''"

text \<open>\<^verbatim>\<open>opt || d\<close> for an optional string.\<close>

definition orString :: "string option \<Rightarrow> string \<Rightarrow> string" where
  "orString opt d = (case opt of None \<Rightarrow> d | Some s \<Rightarrow> if truthy s then s else d)"

text \<open>\<^verbatim>\<open>m.get(k) || d\<close>, printed.\<close>

definition getOr :: "JsValue JsMap \<Rightarrow> string \<Rightarrow> string \<Rightarrow> string" where
  "getOr m k d =
     (case map_get m k of
        None \<Rightarrow> d
      | Some v \<Rightarrow> if truthyValue v then valueToString v else d)"

text \<open>\<^verbatim>\<open>parts.join(sep)\<close>.\<close>

fun join :: "string \<Rightarrow> string list \<Rightarrow> string" where
  "join sep [] = []"
| "join sep [x] = x"
| "join sep (x # y # ys) = x @ sep @ join sep (y # ys)"

text \<open>\<^verbatim>\<open>s.includes(sub)\<close>.\<close>

fun str_includes :: "string \<Rightarrow> string \<Rightarrow> bool" where
  "str_includes [] sub = (sub = [])"
| "str_includes (c # cs) sub = (prefix sub (c # cs) \<or> str_includes cs sub)"

section \<open>The intermediate representation (core/models.ts)\<close>

datatype ContentBlockType = PROSE | CODE | DATA

record ContentBlock =
  cb_type :: ContentBlockType
  cb_language :: "string option"
  cb_content :: string
  cb_annotations :: "JsValue JsMap option"

datatype DocNodeType = ROOT | CATEGORY | SECTION | OPERATION | ITEM

datatype DocNode =
  DocNode (node_type: DocNodeType) (node_id: string) (node_title: string)
    (node_description: string) (node_content: "ContentBlock list")
    (node_children: "DocNode list") (node_metadata: "JsValue JsMap")

text \<open>
  \<^verbatim>\<open>createDocNode(type, id, title, options)\<close>: an option left out takes its
  default (\<^verbatim>\<open>''\<close>, \<^verbatim>\<open>[]\<close>, \<^verbatim>\<open>[]\<close>, \<^verbatim>\<open>new Map()\<close>).
\<close>

definition createDocNode ::
  "DocNodeType \<Rightarrow> string \<Rightarrow> string \<Rightarrow> string option \<Rightarrow> ContentBlock list option \<Rightarrow>
   DocNode list option \<Rightarrow> JsValue JsMap option \<Rightarrow> DocNode" where
  "createDocNode ty i t description content children metadata =
     DocNode ty i t
       (case description of None \<Rightarrow> [] | Some d \<Rightarrow> d)
       (case content of None \<Rightarrow> [] | Some c \<Rightarrow> c)
       (case children of None \<Rightarrow> [] | Some c \<Rightarrow> c)
       (case metadata of None \<Rightarrow> [] | Some m \<Rightarrow> m)"

definition createContentBlock ::
  "ContentBlockType \<Rightarrow> string \<Rightarrow> string option \<Rightarrow> JsValue JsMap option \<Rightarrow> ContentBlock" where
  "createContentBlock ty c lang ann =
     \<lparr>cb_type = ty, cb_language = lang, cb_content = c, cb_annotations = ann\<rparr>"

section \<open>The renderer (core/universal-formatter.ts)\<close>

definition NEWLINE :: string where
  "NEWLINE = [CHR 0x0A]"

definition DOUBLE_NEWLINE :: string where
  "DOUBLE_NEWLINE = [CHR 0x0A, CHR 0x0A]"

record FormatterOptions =
  outputDir :: string
  filenamePrefix :: "string option"
  title :: "string option"
  systemPrompt :: "string option"
  includeMetadata :: "bool option"

text \<open>\<^verbatim>\<open>getHeading(type, depth)\<close>: \<^verbatim>\<open>'#'.repeat(Math.min(depth + 1, 4))\<close>.\<close>

definition getHeading :: "DocNodeType \<Rightarrow> nat \<Rightarrow> string" where
  "getHeading ty depth = replicate (min (depth + 1) 4) CHR ''#''"

definition formatContent :: "ContentBlock \<Rightarrow> string" where
  "formatContent content =
     (case cb_type content of
        PROSE \<Rightarrow> concat [cb_content content, DOUBLE_NEWLINE]
      | CODE \<Rightarrow>
          (let lang = orString (cb_language content) ''text'' in
           concat [''```'', lang, NEWLINE, cb_content content, NEWLINE, ''```'', DOUBLE_NEWLINE])
      | DATA \<Rightarrow>
          (let dataType =
                 (case cb_annotations content of
                    None \<Rightarrow> ''data''
                  | Some ann \<Rightarrow> getOr ann ''type'' ''data'') in
           concat [NEWLINE, ''// '' @ dataType, NEWLINE, ''/*'', NEWLINE,
                   cb_content content, NEWLINE, ''*/'', NEWLINE, NEWLINE]))"

text \<open>
  \<^verbatim>\<open>formatNode(node, numbers)\<close>. The two \<^verbatim>\<open>for\<close> loops over the children, each
  with its counter \<^verbatim>\<open>childNum\<close>, are the two auxiliary functions: the loop of a
  ROOT node passes \<^verbatim>\<open>[childNum]\<close>, the loop of any other node passes
  \<^verbatim>\<open>[...numbers, childNum]\<close>.
\<close>

fun formatNode :: "DocNode \<Rightarrow> nat list \<Rightarrow> string"
  and formatRootChildren :: "DocNode list \<Rightarrow> nat \<Rightarrow> string"
  and formatChildren :: "DocNode list \<Rightarrow> nat list \<Rightarrow> nat \<Rightarrow> string" where
  "formatNode (DocNode ty i t d c ch m) numbers =
     (if ty = ROOT then formatRootChildren ch 1
      else
        concat [getHeading ty (length numbers) @ '' '' @ join ''.'' (map natToString numbers)
                  @ ''. '' @ t, DOUBLE_NEWLINE]
        @ (if truthy d then concat [d, DOUBLE_NEWLINE] else [])
        @ concat (map formatContent c)
        @ formatChildren ch numbers 1)"
| "formatRootChildren [] childNum = []"
| "formatRootChildren (child # rest) childNum =
     formatNode child [childNum] @ formatRootChildren rest (childNum + 1)"
| "formatChildren [] numbers childNum = []"
| "formatChildren (child # rest) numbers childNum =
     formatNode child (numbers @ [childNum]) @ formatChildren rest numbers (childNum + 1)"

text \<open>
  \<^verbatim>\<open>generateHeader()\<close>. The date printed is \<^verbatim>\<open>new Date()\<close> formatted by the
  platform; it is an input of the model (\<open>date\<close>).
\<close>

definition generateHeader :: "DocNode \<Rightarrow> FormatterOptions \<Rightarrow> string \<Rightarrow> string" where
  "generateHeader root options date =
     (let prompt = orString (systemPrompt options)
            (''This is the complete developer documentation for ''
               @ orString (title options) (node_title root) @ ''.'');
          promptParts = [''<SYSTEM>'' @ prompt @ ''</SYSTEM>'', DOUBLE_NEWLINE];
          metadataParts =
            (if includeMetadata options \<noteq> Some False then
               (let format = getOr (node_metadata root) ''format'' ''unknown'' in
                [''<!-- Format: '' @ format @ '', Generated: '' @ date @ '' -->'',
                 DOUBLE_NEWLINE])
             else []);
          titleText = orString (title options) (node_title root);
          titleParts = [''# '' @ titleText, DOUBLE_NEWLINE]
      in concat (promptParts @ metadataParts @ titleParts))"

definition generateCategoryHeader :: "DocNode \<Rightarrow> FormatterOptions \<Rightarrow> DocNode \<Rightarrow> string" where
  "generateCategoryHeader root options category =
     (let titleText = orString (title options) (node_title root);
          prompt = ''This is the developer documentation for '' @ titleText @ '' - ''
                     @ node_title category @ ''.''
      in concat
           ([''<SYSTEM>'' @ prompt @ ''</SYSTEM>'', DOUBLE_NEWLINE,
             ''# '' @ titleText @ '' '' @ node_title category @ '' Documentation'',
             DOUBLE_NEWLINE]
            @ (if truthy (node_description category)
               then [node_description category, DOUBLE_NEWLINE] else [])))"

subsection \<open>File output\<close>

text \<open>
  The renderer's effects are file writes. Each write the code issues is a value:
  \<^verbatim>\<open>writeFile(path, content, 'utf-8')\<close> or \<^verbatim>\<open>this.writeFileStream(path, content)\<close>.
  \<open>perform\<close> gives what a write does to the files (a map from paths to contents):
  the buffered write stores the content; the streamed write opens the file
  truncated (\<^verbatim>\<open>createWriteStream\<close>) and appends the chunks of
  \<^verbatim>\<open>Readable.from([content])\<close> in order (\<^verbatim>\<open>pipeline\<close>). Write failures and
  the creation of the output directory are outside the model.
\<close>

datatype FileWrite = WriteFile string string | WriteFileStream string string

type_synonym FileSystem = "string \<rightharpoonup> string"

definition appendChunk :: "string \<Rightarrow> FileSystem \<Rightarrow> string \<Rightarrow> FileSystem" where
  "appendChunk path fs chunk =
     fs(path \<mapsto> (case fs path of None \<Rightarrow> chunk | Some old \<Rightarrow> old @ chunk))"

definition Readable_from :: "string list \<Rightarrow> string list" where
  "Readable_from chunks = chunks"

definition createWriteStream :: "string \<Rightarrow> FileSystem \<Rightarrow> FileSystem" where
  "createWriteStream path fs = fs(path \<mapsto> [])"

definition pipeline :: "string list \<Rightarrow> string \<Rightarrow> FileSystem \<Rightarrow> FileSystem" where
  "pipeline readable path fs = foldl (appendChunk path) (createWriteStream path fs) readable"

fun perform :: "FileWrite \<Rightarrow> FileSystem \<Rightarrow> FileSystem" where
  "perform (WriteFile path content) fs = fs(path \<mapsto> content)"
| "perform (WriteFileStream path content) fs = pipeline (Readable_from [content]) path fs"



text \<open>
  \<^verbatim>\<open>generateFullDoc()\<close>, with the size above which the write is streamed as a
  parameter; the code's threshold is \<^verbatim>\<open>10 * 1024 * 1024\<close>.
\<close>

definition generateFullDocWith ::
  "nat \<Rightarrow> DocNode \<Rightarrow> FormatterOptions \<Rightarrow> string \<Rightarrow> FileWrite" where
  "generateFullDocWith threshold root options date =
     (let prefix = orString (filenamePrefix options) ''documentation'';
          filepath = outputDir options @ ''/'' @ prefix @ ''-full-llms.txt'';
          content = concat [generateHeader root options date, formatNode root []]
      in if length content > threshold then WriteFileStream filepath content
         else WriteFile filepath content)"

definition generateFullDoc :: "DocNode \<Rightarrow> FormatterOptions \<Rightarrow> string \<Rightarrow> FileWrite" where
  "generateFullDoc root options date = generateFullDocWith (10 * 1024 * 1024) root options date"

definition generateModularDocs :: "DocNode \<Rightarrow> FormatterOptions \<Rightarrow> FileWrite list" where
  "generateModularDocs root options =
     (let categories = filter (\<lambda>child. node_type child = CATEGORY) (node_children root) in
      if length categories = 0 then []
      else
        (let prefix = orString (filenamePrefix options) ''documentation'' in
         map (\<lambda>category.
                (let filename = prefix @ ''-'' @ node_id category @ ''-llms.txt'';
                     filepath = outputDir options @ ''/'' @ filename
                 in WriteFile filepath
                      (concat [generateCategoryHeader root options category,
                               formatNode category []])))
             categories))"

definition generateAll :: "DocNode \<Rightarrow> FormatterOptions \<Rightarrow> string \<Rightarrow> FileWrite list" where
  "generateAll root options date = generateFullDoc root options date # generateModularDocs root options"

section \<open>The specification-list adapter (parsers/openref/adapter.ts)\<close>

text \<open>
  The records of the parsed specification (core/models.ts). Fields the adapter never reads
  (\<^verbatim>\<open>overwriteParams\<close>, \<^verbatim>\<open>slugPrefix\<close>, \<^verbatim>\<open>libraries\<close>, \<^verbatim>\<open>_totalExamples\<close>) are left out.
\<close>

record Example =
  ex_id :: string
  ex_name :: string
  ex_code :: string
  ex_description :: string
  ex_dataSql :: string
  ex_response :: string
  ex_isSpotlight :: bool

record Operation =
  op_id :: string
  op_title :: string
  op_description :: string
  op_notes :: string
  op_examples :: "Example list"

record SpecInfo =
  info_id :: string
  info_title :: string
  info_description :: string
  info_specUrl :: "string option"

record SpecData =
  info :: SpecInfo
  operations :: "Operation list"
  operationMap :: "Operation JsMap option"

definition createSpecData :: "SpecInfo \<Rightarrow> Operation list \<Rightarrow> SpecData" where
  "createSpecData i ops =
     \<lparr>info = i, operations = ops,
      operationMap = Some (foldl (\<lambda>m op. map_set (op_id op) op m) [] ops)\<rparr>"

definition inferLanguage :: "string \<Rightarrow> string" where
  "inferLanguage code =
     (if str_includes code ''const '' \<or> str_includes code ''let '' \<or> str_includes code ''async ''
      then ''javascript''
      else if str_includes code ''func '' \<or> (str_includes code ''let '' \<and> str_includes code '':'')
      then ''swift''
      else if str_includes code ''def '' \<or> (str_includes code ''import '' \<and> str_includes code ''from '')
      then ''python''
      else if str_includes code ''public class'' \<or> str_includes code ''private val''
      then ''kotlin''
      else if (str_includes code ''class '' \<and> str_includes code ''{'') \<or> str_includes code ''using ''
      then ''csharp''
      else if str_includes code ''void '' \<or> str_includes code ''Future<''
      then ''dart''
      else ''code'')"

text \<open>\<^verbatim>\<open>convertExample\<close>: each \<^verbatim>\<open>content.push\<close> appends to the list built so far.\<close>

definition convertExample :: "Example \<Rightarrow> DocNode" where
  "convertExample example =
     (let metadata = map_set ''isSpotlight'' (JBool (ex_isSpotlight example))
                       (map_set ''exampleId'' (JStr (ex_id example)) []);
          content0 = [];
          content1 =
            (if truthy (ex_description example)
             then content0 @ [createContentBlock PROSE (ex_description example) None None]
             else content0);
          content2 =
            (if truthy (ex_code example)
             then (let language = inferLanguage (ex_code example) in
                   content1 @ [createContentBlock CODE (ex_code example) (Some language) None])
             else content1);
          content3 =
            (if truthy (ex_dataSql example)
             then content2 @ [createContentBlock DATA (ex_dataSql example) (Some ''sql'')
                                (Some (new_Map [(''type'', JStr ''schema'')]))]
             else content2);
          content4 =
            (if truthy (ex_response example)
             then content3 @ [createContentBlock DATA (ex_response example) (Some ''json'')
                                (Some (new_Map [(''type'', JStr ''response'')]))]
             else content3)
      in createDocNode ITEM (ex_id example) (ex_name example)
           (Some (ex_description example)) (Some content4) None (Some metadata))"

definition convertOperation :: "Operation \<Rightarrow> DocNode" where
  "convertOperation operation =
     (let metadata = map_set ''notes'' (JStr (op_notes operation))
                       (map_set ''operationId'' (JStr (op_id operation)) []);
          children = map convertExample (op_examples operation);
          content0 = [];
          content1 =
            (if truthy (op_description operation)
             then content0 @ [createContentBlock PROSE (op_description operation) None None]
             else content0);
          content2 =
            (if truthy (op_notes operation)
             then content1 @ [createContentBlock PROSE (op_notes operation) None None]
             else content1)
      in createDocNode OPERATION (op_id operation) (op_title operation)
           (Some (op_description operation)) (Some content2) (Some children) (Some metadata))"

text \<open>
  \<^verbatim>\<open>convertWithCategories\<close>. The inner loop collects the operations of one category,
  the outer loop runs over the entries of the category map in insertion order;
  \<^verbatim>\<open>continue\<close> goes on with the remaining entries.
\<close>

fun collectOperations :: "Operation JsMap \<Rightarrow> string list \<Rightarrow> Operation list" where
  "collectOperations opMap [] = []"
| "collectOperations opMap (opId # rest) =
     (case map_get opMap opId of
        None \<Rightarrow> collectOperations opMap rest
      | Some op \<Rightarrow> op # collectOperations opMap rest)"

fun convertCategories :: "Operation JsMap \<Rightarrow> (string list) JsMap \<Rightarrow> DocNode list" where
  "convertCategories opMap [] = []"
| "convertCategories opMap ((categoryName, operationIds) # rest) =
     (let ops = collectOperations opMap operationIds in
      if length ops = 0 then convertCategories opMap rest
      else createDocNode CATEGORY categoryName categoryName None None
             (Some (map convertOperation ops)) None
           # convertCategories opMap rest)"

definition lookupMap :: "SpecData \<Rightarrow> Operation JsMap" where
  "lookupMap specData =
     (case operationMap specData of
        Some m \<Rightarrow> m
      | None \<Rightarrow> new_Map (map (\<lambda>op. (op_id op, op)) (operations specData)))"

definition convertWithCategories :: "SpecData \<Rightarrow> (string list) JsMap \<Rightarrow> DocNode list" where
  "convertWithCategories specData categoryMap =
     convertCategories (lookupMap specData) categoryMap"

text \<open>The assignment \<^verbatim>\<open>root.children = ...\<close>.\<close>

fun set_children :: "DocNode \<Rightarrow> DocNode list \<Rightarrow> DocNode" where
  "set_children (DocNode ty i t d c ch m) children = DocNode ty i t d c children m"

definition openRefToDocNode :: "SpecData \<Rightarrow> (string list) JsMap option \<Rightarrow> DocNode" where
  "openRefToDocNode specData categoryMap =
     (let metadata =
            map_set ''specUrl''
              (case info_specUrl (info specData) of None \<Rightarrow> JUndefined | Some u \<Rightarrow> JStr u)
              (map_set ''title'' (JStr (info_title (info specData)))
                 (map_set ''sdk'' (JStr (info_id (info specData)))
                    (map_set ''format'' (JStr ''openref'') [])));
          root = createDocNode ROOT (info_id (info specData)) (info_title (info specData))
                   (Some (info_description (info specData))) None None (Some metadata)
      in case categoryMap of
           Some cm \<Rightarrow>
             if length cm > 0 then set_children root (convertWithCategories specData cm)
             else set_children root (map convertOperation (operations specData))
         | None \<Rightarrow> set_children root (map convertOperation (operations specData)))"

section \<open>The heading-tree adapter (parsers/markdown/adapter.ts)\<close>

datatype MarkdownContentType = MdProse | MdCode | MdImage | MdBlockquote

record MarkdownContent =
  mc_type :: MarkdownContentType
  mc_content :: string
  mc_language :: "string option"

datatype MarkdownSection =
  MarkdownSection (sec_level: int) (sec_title: string) (sec_id: string)
    (sec_content: "MarkdownContent list") (sec_children: "MarkdownSection list")

definition convertContent :: "MarkdownContent \<Rightarrow> ContentBlock" where
  "convertContent content =
     (case mc_type content of
        MdCode \<Rightarrow>
          createContentBlock CODE (mc_content content)
            (Some (orString (mc_language content) ''text'')) None
      | MdProse \<Rightarrow> createContentBlock PROSE (mc_content content) None None
      | MdBlockquote \<Rightarrow>
          createContentBlock PROSE (mc_content content) None
            (Some (new_Map [(''style'', JStr ''blockquote'')]))
      | MdImage \<Rightarrow>
          createContentBlock DATA (mc_content content) None
            (Some (new_Map [(''type'', JStr ''image'')])))"

fun convertSection :: "MarkdownSection \<Rightarrow> bool \<Rightarrow> DocNode" where
  "convertSection (MarkdownSection level t i content children) mapH2ToCategory =
     (let nodeType =
            (if level = 2 \<and> mapH2ToCategory then CATEGORY
             else if level = 3 then OPERATION
             else if level \<ge> 4 then ITEM
             else SECTION);
          content' = map convertContent content;
          children' = map (\<lambda>child. convertSection child mapH2ToCategory) children;
          metadata = map_set ''level'' (JNum level) []
      in createDocNode nodeType i t None (Some content') (Some children') (Some metadata))"

section \<open>The heading-tree parser (MarkdownParser.buildSections)\<close>

text \<open>
  The tokens of the Markdown lexer, with the fields the parser reads: a heading has a
  depth and a text; a code token a text and an optional language; a paragraph, a text
  token and a blockquote a text; any other token an optional text and its raw source.
\<close>

datatype ContentToken =
    CodeTok string "string option"
  | ParagraphTok string
  | TextTok string
  | BlockquoteTok string
  | SpaceTok
  | OtherTok "string option" string

datatype Token = HeadingTok int string | ContentTok ContentToken

text \<open>
  \<^verbatim>\<open>tokenText.trim()\<close> is empty exactly when the text consists of white space. Strings
  are byte strings here, so white space is the six ASCII characters; the white space
  beyond ASCII that \<^verbatim>\<open>trim\<close> also strips (no-break space, byte order mark, line and
  paragraph separator) is outside the model.
\<close>

definition isBlank :: "string \<Rightarrow> bool" where
  "isBlank s = list_all (\<lambda>c. c \<in> set [CHR 0x20, CHR 0x09, CHR 0x0A, CHR 0x0B, CHR 0x0C, CHR 0x0D]) s"

fun tokenToContent :: "ContentToken \<Rightarrow> MarkdownContent option" where
  "tokenToContent (CodeTok text lang) =
     Some \<lparr>mc_type = MdCode, mc_content = text, mc_language = Some (orString lang ''text'')\<rparr>"
| "tokenToContent (ParagraphTok text) =
     Some \<lparr>mc_type = MdProse, mc_content = text, mc_language = None\<rparr>"
| "tokenToContent (TextTok text) =
     Some \<lparr>mc_type = MdProse, mc_content = text, mc_language = None\<rparr>"
| "tokenToContent (BlockquoteTok text) =
     Some \<lparr>mc_type = MdBlockquote, mc_content = text, mc_language = None\<rparr>"
| "tokenToContent SpaceTok = None"
| "tokenToContent (OtherTok text raw) =
     (let tokenText = orString text raw in
      if \<not> isBlank tokenText
      then Some \<lparr>mc_type = MdProse, mc_content = tokenText, mc_language = None\<rparr>
      else None)"

text \<open>
  \<^verbatim>\<open>buildSections\<close> creates section objects and keeps references to them in three
  places at once: in \<^verbatim>\<open>rootSections\<close> or in the \<^verbatim>\<open>children\<close> array of the parent, and
  on the working stack, through which the object is mutated after it was attached. The
  model keeps the objects in a store: a section object is a cell, its address is its
  index in the store, a new object is appended, and \<^verbatim>\<open>children\<close>, \<^verbatim>\<open>rootSections\<close>
  and the stack hold addresses. The stack is in the order of the JavaScript array: its
  top is its last element.
\<close>

record SectionCell =
  c_level :: int
  c_title :: string
  c_id :: string
  c_content :: "MarkdownContent list"
  c_children :: "nat list"

type_synonym Store = "SectionCell list"

record BuildState =
  store :: Store
  rootSections :: "nat list"
  stack :: "nat list"
  currentContent :: "MarkdownContent list"

text \<open>
  \<^verbatim>\<open>section.content.push(...contents)\<close> and \<^verbatim>\<open>section.children.push(child)\<close> on
  the object at an address.
\<close>

definition pushContent :: "Store \<Rightarrow> nat \<Rightarrow> MarkdownContent list \<Rightarrow> Store" where
  "pushContent st a cs = st[a := (st ! a)\<lparr>c_content := c_content (st ! a) @ cs\<rparr>]"

definition pushChild :: "Store \<Rightarrow> nat \<Rightarrow> nat \<Rightarrow> Store" where
  "pushChild st a c = st[a := (st ! a)\<lparr>c_children := c_children (st ! a) @ [c]\<rparr>]"

text \<open>
  The loop \<^verbatim>\<open>while (stack.length > 0 && stack[stack.length - 1].level >= token.depth)
  stack.pop()\<close>.
\<close>

function popStack :: "Store \<Rightarrow> int \<Rightarrow> nat list \<Rightarrow> nat list" where
  "popStack st depth stk =
     (if length stk > 0 \<and> c_level (st ! last stk) \<ge> depth
      then popStack st depth (butlast stk) else stk)"
  by pat_completeness auto
termination
  by (relation "measure (\<lambda>(st, depth, stk). length stk)") auto

declare popStack.simps [simp del]

text \<open>Saving the accumulated content to the section on top of the stack.\<close>

definition flushContent :: "BuildState \<Rightarrow> BuildState" where
  "flushContent s =
     (if length (stack s) > 0 \<and> length (currentContent s) > 0
      then s\<lparr>store := pushContent (store s) (last (stack s)) (currentContent s),
             currentContent := []\<rparr>
      else s)"

text \<open>
  One iteration of the loop over the tokens. The function that turns a heading text into
  an identifier (\<^verbatim>\<open>slugify\<close>, a chain of regular-expression replacements) is a
  parameter: nothing below depends on what it computes.
\<close>

definition processToken :: "(string \<Rightarrow> string) \<Rightarrow> BuildState \<Rightarrow> Token \<Rightarrow> BuildState" where
  "processToken slugify s token =
     (case token of
        HeadingTok depth text \<Rightarrow>
          (let s1 = flushContent s;
               newSection = length (store s1);
               st2 = store s1 @ [\<lparr>c_level = depth, c_title = text, c_id = slugify text,
                                  c_content = [], c_children = []\<rparr>];
               stk = popStack st2 depth (stack s1)
           in if length stk > 0
              then s1\<lparr>store := pushChild st2 (last stk) newSection, stack := stk @ [newSection]\<rparr>
              else s1\<lparr>store := st2, rootSections := rootSections s1 @ [newSection],
                      stack := stk @ [newSection]\<rparr>)
      | ContentTok t \<Rightarrow>
          (case tokenToContent t of
             Some content \<Rightarrow> s\<lparr>currentContent := currentContent s @ [content]\<rparr>
           | None \<Rightarrow> s))"

text \<open>
  The value returned is the array of root objects. \<open>reify\<close> reads the tree below an
  address out of the store. Objects are only ever attached to objects created before
  them, so the children of a cell have larger addresses than the cell; the guard makes
  the recursion terminate on any store.
\<close>

function reify :: "Store \<Rightarrow> nat \<Rightarrow> MarkdownSection" where
  "reify st a =
     MarkdownSection (c_level (st ! a)) (c_title (st ! a)) (c_id (st ! a)) (c_content (st ! a))
       (map (reify st) (filter (\<lambda>c. a < c \<and> c < length st) (c_children (st ! a))))"
  by pat_completeness auto
termination
  by (relation "measure (\<lambda>(st, a). length st - a)") auto

declare reify.simps [simp del]

definition initialState :: BuildState where
  "initialState = \<lparr>store = [], rootSections = [], stack = [], currentContent = []\<rparr>"

definition buildSections :: "(string \<Rightarrow> string) \<Rightarrow> Token list \<Rightarrow> MarkdownSection list" where
  "buildSections slugify tokens =
     (let s = foldl (processToken slugify) initialState tokens;
          st = (if length (stack s) > 0 \<and> length (currentContent s) > 0
                then pushContent (store s) (last (stack s)) (currentContent s)
                else store s)
      in map (reify st) (rootSections s))"

section \<open>Vocabulary of the properties\<close>

text \<open>
  The invariant of the data model: the tree is rooted at a ROOT node and no other node
  has the kind ROOT.
\<close>

fun rootFree :: "DocNode \<Rightarrow> bool" where
  "rootFree (DocNode ty i t d c ch m) = (ty \<noteq> ROOT \<and> list_all rootFree ch)"

definition wellFormed :: "DocNode \<Rightarrow> bool" where
  "wellFormed root = (node_type root = ROOT \<and> list_all rootFree (node_children root))"

text \<open>
  The node reached from a node by a path of 1-based positions among the siblings, and
  the heading line of a node rendered with a number path.
\<close>

fun descend :: "DocNode \<Rightarrow> nat list \<Rightarrow> DocNode option" where
  "descend node [] = Some node"
| "descend node (k # ks) =
     (if 1 \<le> k \<and> k \<le> length (node_children node)
      then descend (node_children node ! (k - 1)) ks else None)"

definition headingLine :: "DocNode \<Rightarrow> nat list \<Rightarrow> string" where
  "headingLine node numbers =
     getHeading (node_type node) (length numbers) @ '' ''
       @ join ''.'' (map natToString numbers) @ ''. '' @ node_title node @ DOUBLE_NEWLINE"

text \<open>
  Two trees are identical except for their metadata maps when erasing the metadata of
  every node makes them equal.
\<close>

fun eraseMetadata :: "DocNode \<Rightarrow> DocNode" where
  "eraseMetadata (DocNode ty i t d c ch m) = DocNode ty i t d c (map eraseMetadata ch) []"

text \<open>
  The lookup cache \<^verbatim>\<open>_operationMap\<close> of a parsed specification is optional. When it
  is present it is the one \<^verbatim>\<open>createSpecData\<close> builds from the operations.
\<close>

definition cacheConsistent :: "SpecData \<Rightarrow> bool" where
  "cacheConsistent specData =
     (case operationMap specData of
        None \<Rightarrow> True
      | Some m \<Rightarrow> Some m = operationMap (createSpecData (info specData) (operations specData)))"

subsection \<open>The stack rule on values\<close>

text \<open>
  The rule of the specification, on immutable values. The working stack holds the open
  sections as frames, top first; a frame carries the children already closed under it.
  On a heading of level \<open>L\<close> the frames whose level is at least \<open>L\<close> are popped, each
  popped frame becoming the next child of the frame below it, or the next root section
  when the stack is empty below it; then the new section is pushed. Content goes to the
  frame on top of the stack, the deepest open section; with no open section there is
  nowhere for it to go. At the end the open frames are closed from the top.
\<close>

record Frame =
  f_level :: int
  f_title :: string
  f_id :: string
  f_content :: "MarkdownContent list"
  f_children :: "MarkdownSection list"

definition closeFrame :: "Frame \<Rightarrow> MarkdownSection" where
  "closeFrame f = MarkdownSection (f_level f) (f_title f) (f_id f) (f_content f) (f_children f)"

fun popFrames :: "int \<Rightarrow> MarkdownSection list \<Rightarrow> Frame list
    \<Rightarrow> MarkdownSection list \<times> Frame list" where
  "popFrames L roots [] = (roots, [])"
| "popFrames L roots [f] =
     (if f_level f \<ge> L then (roots @ [closeFrame f], []) else (roots, [f]))"
| "popFrames L roots (f # g # rest) =
     (if f_level f \<ge> L
      then popFrames L roots (g\<lparr>f_children := f_children g @ [closeFrame f]\<rparr> # rest)
      else (roots, f # g # rest))"

fun closeAll :: "MarkdownSection list \<Rightarrow> Frame list \<Rightarrow> MarkdownSection list" where
  "closeAll roots [] = roots"
| "closeAll roots [f] = roots @ [closeFrame f]"
| "closeAll roots (f # g # rest) =
     closeAll roots (g\<lparr>f_children := f_children g @ [closeFrame f]\<rparr> # rest)"

fun ruleStep :: "(string \<Rightarrow> string) \<Rightarrow> MarkdownSection list \<times> Frame list \<Rightarrow> Token
    \<Rightarrow> MarkdownSection list \<times> Frame list" where
  "ruleStep slugify (roots, frames) (HeadingTok L text) =
     (case popFrames L roots frames of
        (roots', frames') \<Rightarrow>
          (roots', \<lparr>f_level = L, f_title = text, f_id = slugify text, f_content = [],
                    f_children = []\<rparr> # frames'))"
| "ruleStep slugify (roots, frames) (ContentTok t) =
     (case tokenToContent t of
        None \<Rightarrow> (roots, frames)
      | Some content \<Rightarrow>
          (case frames of
             [] \<Rightarrow> (roots, [])
           | f # rest \<Rightarrow> (roots, f\<lparr>f_content := f_content f @ [content]\<rparr> # rest)))"

definition stackRule :: "(string \<Rightarrow> string) \<Rightarrow> Token list \<Rightarrow> MarkdownSection list" where
  "stackRule slugify tokens =
     (case foldl (ruleStep slugify) ([], []) tokens of (roots, frames) \<Rightarrow> closeAll roots frames)"

fun isHeading :: "Token \<Rightarrow> bool" where
  "isHeading (HeadingTok L text) = True"
| "isHeading (ContentTok t) = False"

text \<open>
  The code keeps content that comes before the first heading and hands it to the first
  section: \<open>hoistLeading\<close> moves the tokens before the first heading behind it (and
  leaves nothing of a token list without headings).
\<close>

definition hoistLeading :: "Token list \<Rightarrow> Token list" where
  "hoistLeading tokens =
     (case dropWhile (\<lambda>t. \<not> isHeading t) tokens of
        [] \<Rightarrow> []
      | h # rest \<Rightarrow> h # takeWhile (\<lambda>t. \<not> isHeading t) tokens @ rest)"

subsection \<open>Relating the store to the frames\<close>

text \<open>
  A range of addresses is closed when every child of a cell in the range lies in the
  range, above the cell. The relation \<open>rel\<close> walks the stack from the bottom: the
  addresses \<open>kids\<close> of the current container are closed sections, which read out as
  \<open>zkids\<close>, followed by the next open section; the open section matches its frame, and
  its own children are related in the same way. Only the top frame has content that the
  code has not stored yet (\<open>cur\<close>).
\<close>

definition closedRange :: "Store \<Rightarrow> nat \<Rightarrow> nat \<Rightarrow> bool" where
  "closedRange st lo hi =
     (\<forall>a. lo \<le> a \<and> a < hi \<longrightarrow> (\<forall>c \<in> set (c_children (st ! a)). a < c \<and> c < hi))"

definition closedKids :: "Store \<Rightarrow> nat \<Rightarrow> nat \<Rightarrow> nat list \<Rightarrow> MarkdownSection list \<Rightarrow> bool" where
  "closedKids st lo hi cs zs =
     (lo \<le> hi \<and> hi \<le> length st \<and> closedRange st lo hi
      \<and> (\<forall>c \<in> set cs. lo \<le> c \<and> c < hi)
      \<and> map (reify st) cs = zs)"

fun rel :: "Store \<Rightarrow> MarkdownContent list \<Rightarrow> nat \<Rightarrow> nat \<Rightarrow> nat list \<Rightarrow> MarkdownSection list
    \<Rightarrow> nat list \<Rightarrow> Frame list \<Rightarrow> bool" where
  "rel st cur lo hi kids zkids [] [] = closedKids st lo hi kids zkids"
| "rel st cur lo hi kids zkids (a # S) (f # F) =
     (kids \<noteq> [] \<and> last kids = a \<and> closedKids st lo a (butlast kids) zkids
      \<and> lo \<le> a \<and> a < hi \<and> hi \<le> length st
      \<and> c_level (st ! a) = f_level f \<and> c_title (st ! a) = f_title f \<and> c_id (st ! a) = f_id f
      \<and> f_content f = c_content (st ! a) @ (if S = [] then cur else [])
      \<and> rel st cur (Suc a) hi (c_children (st ! a)) (f_children f) S F)"
| "rel st cur lo hi kids zkids [] (f # F) = False"
| "rel st cur lo hi kids zkids (a # S) [] = False"

definition newCell :: "Frame \<Rightarrow> SectionCell" where
  "newCell f = \<lparr>c_level = f_level f, c_title = f_title f, c_id = f_id f, c_content = [],
                c_children = []\<rparr>"

definition sim :: "BuildState \<Rightarrow> MarkdownSection list \<times> Frame list \<Rightarrow> bool" where
  "sim s z = rel (store s) (currentContent s) 0 (length (store s)) (rootSections s) (fst z)
               (stack s) (rev (snd z))"

text \<open>The content blocks a list of tokens yields.\<close>

fun contentsOf :: "Token list \<Rightarrow> MarkdownContent list" where
  "contentsOf [] = []"
| "contentsOf (HeadingTok L text # ts) = contentsOf ts"
| "contentsOf (ContentTok t # ts) =
     (case tokenToContent t of None \<Rightarrow> contentsOf ts | Some c \<Rightarrow> c # contentsOf ts)"

subsection \<open>Concrete inputs\<close>

definition exTree :: DocNode where
  "exTree = DocNode ROOT ''r'' ''Root'' ''about'' []
     [DocNode OPERATION ''a'' ''A'' [] []
        [DocNode ITEM ''b'' ''B'' [] []
           [DocNode SECTION ''x'' ''X'' [] [] [] [],
            DocNode CATEGORY ''c'' ''C'' [] [] [] []] []] [],
      DocNode CATEGORY ''g'' ''G'' [] [] [] []] []"

definition exOptions :: FormatterOptions where
  "exOptions = \<lparr>outputDir = ''out'', filenamePrefix = Some ''demo'', title = None,
                 systemPrompt = None, includeMetadata = None\<rparr>"

definition exGroups :: DocNode where
  "exGroups = DocNode ROOT ''demo'' ''Demo'' [] []
     [DocNode CATEGORY ''db'' ''Database'' [] [] [] [],
      DocNode SECTION ''intro'' ''Intro'' [] [] [] [],
      DocNode CATEGORY ''auth'' ''Auth'' [] [] [] []] []"



definition exExample :: Example where
  "exExample = \<lparr>ex_id = ''e1'', ex_name = ''Basic'', ex_code = ''let x = 1'',
                 ex_description = ''Pick rows'', ex_dataSql = [], ex_response = ''[]'',
                 ex_isSpotlight = False\<rparr>"

definition exOperation :: Operation where
  "exOperation = \<lparr>op_id = ''select'', op_title = ''select'', op_description = ''Reads'',
                   op_notes = [], op_examples = []\<rparr>"

definition exSection :: MarkdownSection where
  "exSection = MarkdownSection 2 ''Guide'' ''guide'' []
     [MarkdownSection 3 ''Topic'' ''topic'' []
        [MarkdownSection 5 ''Deep'' ''deep'' [] [], MarkdownSection 1 ''One'' ''one'' [] []],
      MarkdownSection 0 ''Zero'' ''zero'' [] []]"

definition metaA :: DocNode where
  "metaA = DocNode ROOT ''demo'' ''Demo'' [] []
     [DocNode CATEGORY ''db'' ''Database'' [] [] [] [(''level'', JNum 2)]]
     [(''format'', JStr ''openref''), (''sdk'', JStr ''demo'')]"

definition metaB :: DocNode where
  "metaB = DocNode ROOT ''demo'' ''Demo'' [] []
     [DocNode CATEGORY ''db'' ''Database'' [] [] [] []]
     [(''format'', JStr ''openref'')]"

definition metaC :: DocNode where
  "metaC = DocNode ROOT ''demo'' ''Demo'' [] []
     [DocNode CATEGORY ''db'' ''Database'' [] [] [] []]
     [(''format'', JStr ''markdown'')]"

definition exSpec :: SpecData where
  "exSpec = createSpecData
     \<lparr>info_id = ''demo'', info_title = ''Demo'', info_description = ''A demo'',
      info_specUrl = None\<rparr>
     [exOperation,
      \<lparr>op_id = ''signin'', op_title = ''Sign in'', op_description = [], op_notes = [],
       op_examples = []\<rparr>]"

definition exCategoryMap :: "(string list) JsMap" where
  "exCategoryMap = [(''db'', [''select'', ''missing'']), (''ghost'', [''nope'']),
                    (''auth'', [''gone'', ''signin''])]"

definition exTokens :: "Token list" where
  "exTokens = [ContentTok (ParagraphTok ''lead''), HeadingTok 2 ''A'', ContentTok (TextTok ''a1''),
     HeadingTok 4 ''B'', ContentTok SpaceTok, ContentTok (CodeTok ''x'' None),
     HeadingTok 3 ''C'', HeadingTok 1 ''D'', ContentTok (ParagraphTok ''d1''),
     HeadingTok 2 ''E'']"

section \<open>Numbering\<close>

lemma formatChildren_index:
  "formatChildren ch numbers n =
     concat (map (\<lambda>k. formatNode (ch ! k) (numbers @ [n + k])) [0..<length ch])"
proof (induction ch arbitrary: n)
  case Nil
  show ?case by simp
next
  case (Cons child rest)
  have "[0..<length (child # rest)] = 0 # map Suc [0..<length rest]"
    by (simp add: upt_conv_Cons map_Suc_upt del: upt_Suc)
  then show ?case
    using Cons.IH [of "n + 1"] by (simp add: o_def del: upt_Suc)
qed

lemma formatRootChildren_index:
  "formatRootChildren ch n =
     concat (map (\<lambda>k. formatNode (ch ! k) [n + k]) [0..<length ch])"
proof (induction ch arbitrary: n)
  case Nil
  show ?case by simp
next
  case (Cons child rest)
  have "[0..<length (child # rest)] = 0 # map Suc [0..<length rest]"
    by (simp add: upt_conv_Cons map_Suc_upt del: upt_Suc)
  then show ?case
    using Cons.IH [of "n + 1"] by (simp add: o_def del: upt_Suc)
qed

lemma formatNode_non_root:
  "node_type node \<noteq> ROOT \<Longrightarrow>
   formatNode node numbers =
     getHeading (node_type node) (length numbers) @ '' ''
       @ join ''.'' (map natToString numbers) @ ''. '' @ node_title node @ DOUBLE_NEWLINE
     @ (if truthy (node_description node)
        then node_description node @ DOUBLE_NEWLINE else [])
     @ concat (map formatContent (node_content node))
     @ concat (map (\<lambda>k. formatNode (node_children node ! k) (numbers @ [Suc k]))
                 [0..<length (node_children node)])"
  by (cases node) (simp add: formatChildren_index)

lemma natToString_digits [simp]:
  "natToString 1 = ''1''" "natToString 2 = ''2''" "natToString (Suc 0) = ''1''"
  "natToString (Suc (Suc 0)) = ''2''"
  by (simp_all add: natToString.simps digitChar_def)

lemma concat_map_split:
  assumes "i < n"
  shows "concat (map f [0..<n]) = concat (map f [0..<i]) @ f i @ concat (map f [Suc i..<n])"
proof -
  have "[0..<n] = [0..<i] @ [i..<n]"
    using assms upt_add_eq_append [of 0 i "n - i"] by simp
  also have "[i..<n] = i # [Suc i..<n]" using assms by (simp add: upt_conv_Cons)
  finally show ?thesis by simp
qed

lemma rootFree_fields:
  "rootFree node \<Longrightarrow> node_type node \<noteq> ROOT"
  "rootFree node \<Longrightarrow> list_all rootFree (node_children node)"
  by (cases node; simp)+

lemma child_segment:
  assumes "1 \<le> k" "k \<le> length ch"
  shows "concat (map (\<lambda>j. g (ch ! j) (Suc j)) [0..<length ch])
      = concat (map (\<lambda>j. g (ch ! j) (Suc j)) [0..<k - 1])
        @ g (ch ! (k - 1)) k
        @ concat (map (\<lambda>j. g (ch ! j) (Suc j)) [k..<length ch])"
  using concat_map_split [of "k - 1" "length ch" "\<lambda>j. g (ch ! j) (Suc j)"] assms by simp

lemma descend_segment:
  "rootFree node \<Longrightarrow> descend node p = Some n \<Longrightarrow>
   rootFree n \<and> (\<exists>before after. formatNode node numbers = before @ formatNode n (numbers @ p) @ after)"
proof (induction p arbitrary: node numbers)
  case Nil
  have n: "n = node" using Nil.prems(2) by simp
  have "formatNode node numbers = [] @ formatNode n (numbers @ []) @ []" by (simp add: n)
  then have "\<exists>before after. formatNode node numbers = before @ formatNode n (numbers @ []) @ after"
    by (intro exI)
  then show ?case using Nil.prems(1) n by simp
next
  case (Cons k ks)
  define ch where "ch = node_children node"
  have k: "1 \<le> k" "k \<le> length ch" and d: "descend (ch ! (k - 1)) ks = Some n"
    using Cons.prems(2) by (simp_all add: ch_def split: if_splits)
  have rf: "rootFree (ch ! (k - 1))"
    using rootFree_fields(2) [OF Cons.prems(1)] k by (simp add: ch_def list_all_length)
  obtain b a where inner: "formatNode (ch ! (k - 1)) (numbers @ [k])
                             = b @ formatNode n ((numbers @ [k]) @ ks) @ a"
    and rn: "rootFree n"
    using Cons.IH [OF rf d, of "numbers @ [k]"] by blast
  define H where "H = getHeading (node_type node) (length numbers) @ '' ''
       @ join ''.'' (map natToString numbers) @ ''. '' @ node_title node @ DOUBLE_NEWLINE
     @ (if truthy (node_description node)
        then node_description node @ DOUBLE_NEWLINE else [])
     @ concat (map formatContent (node_content node))"
  define A where "A = concat (map (\<lambda>j. formatNode (ch ! j) (numbers @ [Suc j])) [0..<k - 1])"
  define B where "B = concat (map (\<lambda>j. formatNode (ch ! j) (numbers @ [Suc j])) [k..<length ch])"
  have "formatNode node numbers
          = H @ concat (map (\<lambda>j. formatNode (ch ! j) (numbers @ [Suc j])) [0..<length ch])"
    using formatNode_non_root [OF rootFree_fields(1) [OF Cons.prems(1)], of numbers]
    by (simp add: H_def ch_def)
  also have "concat (map (\<lambda>j. formatNode (ch ! j) (numbers @ [Suc j])) [0..<length ch])
               = A @ formatNode (ch ! (k - 1)) (numbers @ [k]) @ B"
    unfolding A_def B_def
    by (rule child_segment [OF k, of "\<lambda>c j. formatNode c (numbers @ [j])"])
  finally have "formatNode node numbers
                  = (H @ A @ b) @ formatNode n (numbers @ k # ks) @ (a @ B)"
    using inner by simp
  then have "\<exists>before after. formatNode node numbers
                = before @ formatNode n (numbers @ k # ks) @ after"
    by (intro exI)
  then show ?case using rn by simp
qed

lemma numbering_global:
  assumes "wellFormed root" "descend root p = Some n" "p \<noteq> []"
  shows "\<exists>before after. formatNode root [] = before @ headingLine n p @ after"
proof -
  obtain k ks where p: "p = k # ks" using assms(3) by (cases p) auto
  define ch where "ch = node_children root"
  have k: "1 \<le> k" "k \<le> length ch" and d: "descend (ch ! (k - 1)) ks = Some n"
    using assms(2) p by (simp_all add: ch_def split: if_splits)
  have rf: "rootFree (ch ! (k - 1))"
    using assms(1) k by (simp add: ch_def wellFormed_def list_all_length)
  obtain b a where inner: "formatNode (ch ! (k - 1)) [k] = b @ formatNode n ([k] @ ks) @ a"
    and rn: "rootFree n"
    using descend_segment [OF rf d, of "[k]"] by blast
  obtain rest where hd: "formatNode n p = headingLine n p @ rest"
    using formatNode_non_root [OF rootFree_fields(1) [OF rn], of p]
    by (simp add: headingLine_def)
  define A where "A = concat (map (\<lambda>j. formatNode (ch ! j) [Suc j]) [0..<k - 1])"
  define B where "B = concat (map (\<lambda>j. formatNode (ch ! j) [Suc j]) [k..<length ch])"
  have "formatNode root [] = concat (map (\<lambda>j. formatNode (ch ! j) [Suc j]) [0..<length ch])"
    using assms(1) by (cases root) (simp add: ch_def wellFormed_def formatRootChildren_index)
  also have "\<dots> = A @ formatNode (ch ! (k - 1)) [k] @ B"
    unfolding A_def B_def
    by (rule child_segment [OF k, of "\<lambda>c j. formatNode c [j]"])
  finally have "formatNode root [] = (A @ b) @ headingLine n p @ (rest @ a @ B)"
    using inner hd p by simp
  then show ?thesis by (intro exI)
qed

text \<open>
  Claim C1. A node of kind ROOT emits no heading and no number of its own: its output is
  the output of its children, the child at position \<open>k + 1\<close> rendered with the path
  \<open>[k + 1]\<close>. Every other node, whatever its kind, emits a heading line that carries the
  number path it was given, joined by dots, and renders its child at position \<open>k + 1\<close>
  with that path extended by \<open>k + 1\<close>. Hence, in the rendering of a tree rooted at its
  only ROOT node, the node reached by the positions \<open>p = [N, M, \<dots>]\<close> appears with the
  heading line that carries the path \<open>N.M.\<dots>\<close>.
\<close>

theorem formatNode_numbering:
  "formatNode node numbers =
     (if node_type node = ROOT
      then concat (map (\<lambda>k. formatNode (node_children node ! k) [Suc k])
                     [0..<length (node_children node)])
      else headingLine node numbers
           @ (if truthy (node_description node)
              then node_description node @ DOUBLE_NEWLINE else [])
           @ concat (map formatContent (node_content node))
           @ concat (map (\<lambda>k. formatNode (node_children node ! k) (numbers @ [Suc k]))
                       [0..<length (node_children node)]))
   \<and> (wellFormed root \<and> descend root p = Some n \<and> p \<noteq> []
        \<longrightarrow> (\<exists>before after. formatNode root [] = before @ headingLine n p @ after))"
proof -
  have "formatNode node numbers =
     (if node_type node = ROOT
      then concat (map (\<lambda>k. formatNode (node_children node ! k) [Suc k])
                     [0..<length (node_children node)])
      else headingLine node numbers
           @ (if truthy (node_description node)
              then node_description node @ DOUBLE_NEWLINE else [])
           @ concat (map formatContent (node_content node))
           @ concat (map (\<lambda>k. formatNode (node_children node ! k) (numbers @ [Suc k]))
                       [0..<length (node_children node)]))"
    by (cases node)
      (simp add: formatChildren_index formatRootChildren_index headingLine_def)
  then show ?thesis using numbering_global [of root p n] by blast
qed

theorem formatNode_numbering_witness:
  "formatNode exTree [] =
     ''## 1. A'' @ DOUBLE_NEWLINE @ ''### 1.1. B'' @ DOUBLE_NEWLINE
     @ ''#### 1.1.1. X'' @ DOUBLE_NEWLINE @ ''#### 1.1.2. C'' @ DOUBLE_NEWLINE
     @ ''## 2. G'' @ DOUBLE_NEWLINE
   \<and> wellFormed exTree
   \<and> descend exTree [1, 1, 2] = Some (DocNode CATEGORY ''c'' ''C'' [] [] [] [])
   \<and> (\<exists>before after.
         formatNode exTree [] = before @ ''#### 1.1.2. C'' @ DOUBLE_NEWLINE @ after)"
proof -
  have w: "wellFormed exTree" by (simp add: exTree_def wellFormed_def)
  have d: "descend exTree [1, 1, 2] = Some (DocNode CATEGORY ''c'' ''C'' [] [] [] [])"
    by (simp add: exTree_def)
  have full: "formatNode exTree [] =
     ''## 1. A'' @ DOUBLE_NEWLINE @ ''### 1.1. B'' @ DOUBLE_NEWLINE
     @ ''#### 1.1.1. X'' @ DOUBLE_NEWLINE @ ''#### 1.1.2. C'' @ DOUBLE_NEWLINE
     @ ''## 2. G'' @ DOUBLE_NEWLINE"
    using formatNode_numbering [of exTree "[]"]
    by (simp add: exTree_def getHeading_def truthy_def DOUBLE_NEWLINE_def numeral_2_eq_2)
  have "\<exists>before after. formatNode exTree [] = before
          @ headingLine (DocNode CATEGORY ''c'' ''C'' [] [] [] []) [1, 1, 2] @ after"
    using formatNode_numbering [of _ _ exTree "[1, 1, 2]" "DocNode CATEGORY ''c'' ''C'' [] [] [] []"]
      w d by blast
  then have "\<exists>before after.
         formatNode exTree [] = before @ ''#### 1.1.2. C'' @ DOUBLE_NEWLINE @ after"
    by (simp add: headingLine_def getHeading_def)
  then show ?thesis using w d full by blast
qed

section \<open>Metadata\<close>

lemma formatNode_eraseMetadata_all:
  "formatNode (eraseMetadata node) numbers = formatNode node numbers"
  "formatRootChildren (map eraseMetadata ch) n = formatRootChildren ch n"
  "formatChildren (map eraseMetadata ch') numbers' n' = formatChildren ch' numbers' n'"
  by (induction node numbers and ch n and ch' numbers' n'
      rule: formatNode_formatRootChildren_formatChildren.induct) simp_all

lemma eraseMetadata_fields:
  "node_type (eraseMetadata node) = node_type node"
  "node_id (eraseMetadata node) = node_id node"
  "node_title (eraseMetadata node) = node_title node"
  "node_description (eraseMetadata node) = node_description node"
  "node_content (eraseMetadata node) = node_content node"
  "node_children (eraseMetadata node) = map eraseMetadata (node_children node)"
  by (cases node; simp)+

lemma generateCategoryHeader_eraseMetadata:
  "generateCategoryHeader (eraseMetadata root) options (eraseMetadata category)
     = generateCategoryHeader root options category"
  by (simp add: generateCategoryHeader_def eraseMetadata_fields)

lemma generateModularDocs_eraseMetadata:
  "generateModularDocs (eraseMetadata root) options = generateModularDocs root options"
  by (simp add: generateModularDocs_def Let_def eraseMetadata_fields filter_map o_def
      generateCategoryHeader_eraseMetadata formatNode_eraseMetadata_all)

lemma generateHeader_cases:
  "generateHeader root options date =
     ''<SYSTEM>'' @ orString (systemPrompt options)
        (''This is the complete developer documentation for ''
           @ orString (title options) (node_title root) @ ''.'') @ ''</SYSTEM>'' @ DOUBLE_NEWLINE
     @ (if includeMetadata options = Some False then []
        else ''<!-- Format: '' @ getOr (node_metadata root) ''format'' ''unknown''
               @ '', Generated: '' @ date @ '' -->'' @ DOUBLE_NEWLINE)
     @ ''# '' @ orString (title options) (node_title root) @ DOUBLE_NEWLINE"
  by (simp add: generateHeader_def Let_def)

text \<open>
  Claim C2, as amended. The body of a rendering and the modular files do not depend on
  any metadata map. The header of the full file prints the root's \<^verbatim>\<open>format\<close> entry
  unless \<^verbatim>\<open>includeMetadata\<close> is \<^verbatim>\<open>false\<close>; so two trees that are identical except
  for metadata produce the same files when that line is switched off or when their roots
  print the same format.
\<close>

theorem metadata_only_format_entry:
  assumes "eraseMetadata a = eraseMetadata b"
  shows "formatNode a numbers = formatNode b numbers
    \<and> generateModularDocs a options = generateModularDocs b options
    \<and> (includeMetadata options = Some False
         \<or> getOr (node_metadata a) ''format'' ''unknown''
             = getOr (node_metadata b) ''format'' ''unknown''
        \<longrightarrow> generateAll a options date = generateAll b options date)"
proof -
  have body: "formatNode a nums = formatNode b nums" for nums
    using assms formatNode_eraseMetadata_all(1) [of a nums]
      formatNode_eraseMetadata_all(1) [of b nums] by simp
  have modular: "generateModularDocs a options = generateModularDocs b options"
    using assms generateModularDocs_eraseMetadata [of a options]
      generateModularDocs_eraseMetadata [of b options] by simp
  have ttl: "node_title a = node_title b"
    using assms eraseMetadata_fields(3) [of a] eraseMetadata_fields(3) [of b] by simp
  have "generateHeader a options date = generateHeader b options date"
    if "includeMetadata options = Some False
         \<or> getOr (node_metadata a) ''format'' ''unknown''
             = getOr (node_metadata b) ''format'' ''unknown''"
    using that ttl by (auto simp add: generateHeader_cases)
  then show ?thesis
    using body modular
    by (simp add: generateAll_def generateFullDoc_def generateFullDocWith_def Let_def)
qed

theorem metadata_only_format_entry_witness:
  "eraseMetadata metaA = eraseMetadata metaB
   \<and> formatNode metaA [] = formatNode metaB []
   \<and> generateAll metaA exOptions ''May 1, 2025'' = generateAll metaB exOptions ''May 1, 2025''"
proof -
  have e: "eraseMetadata metaA = eraseMetadata metaB"
    by (simp add: metaA_def metaB_def)
  have f: "getOr (node_metadata metaA) ''format'' ''unknown''
             = getOr (node_metadata metaB) ''format'' ''unknown''"
    by (simp add: metaA_def metaB_def getOr_def map_get_def)
  show ?thesis
    using e f metadata_only_format_entry [OF e, of "[]" exOptions "''May 1, 2025''"] by simp
qed

text \<open>
  The claim as stated fails: two trees that differ only in the root's \<^verbatim>\<open>format\<close>
  entry produce different full files under the default options.
\<close>

theorem metadata_affects_header_counterexample:
  "eraseMetadata metaB = eraseMetadata metaC
   \<and> generateAll metaB exOptions ''May 1, 2025'' \<noteq> generateAll metaC exOptions ''May 1, 2025''"
  by (simp add: metaB_def metaC_def generateAll_def generateFullDoc_def generateFullDocWith_def
      Let_def generateHeader_cases exOptions_def getOr_def map_get_def truthy_def)

section \<open>The specification-list adapter\<close>

lemma find_append_cases:
  "find P (xs @ ys) = (case find P xs of None \<Rightarrow> find P ys | Some x \<Rightarrow> Some x)"
  by (induction xs) simp_all

lemma map_of_foldl_set:
  "map_of (foldl (\<lambda>m x. map_set (f x) (g x) m) m0 xs) k =
     (case find (\<lambda>x. f x = k) (rev xs) of Some x \<Rightarrow> Some (g x) | None \<Rightarrow> map_of m0 k)"
  unfolding map_set_def
proof (induction xs arbitrary: m0)
  case Nil
  show ?case by simp
next
  case (Cons x xs)
  show ?case
    by (simp add: Cons.IH update_conv' find_append_cases split: option.splits)
qed

lemma new_Map_foldl:
  "new_Map (map (\<lambda>op. (op_id op, op)) ops) = foldl (\<lambda>m op. map_set (op_id op) op m) [] ops"
  by (simp add: new_Map_def foldl_map)

lemma lookupMap_get:
  assumes "cacheConsistent specData"
  shows "map_get (lookupMap specData) opId
           = find (\<lambda>op. op_id op = opId) (rev (operations specData))"
proof -
  have "lookupMap specData = foldl (\<lambda>m op. map_set (op_id op) op m) [] (operations specData)"
    using assms
    by (auto simp add: cacheConsistent_def lookupMap_def createSpecData_def new_Map_foldl
        split: option.splits)
  then show ?thesis
    by (simp add: map_get_def map_of_foldl_set split: option.splits)
qed

lemma find_Some_iff_image:
  "(find (\<lambda>op. op_id op = opId) (rev ops) \<noteq> None) = (opId \<in> op_id ` set ops)"
  by (auto simp add: find_None_iff)

lemma collectOperations_map_filter:
  "collectOperations opMap ids = List.map_filter (map_get opMap) ids"
  by (induction ids) (simp_all split: option.splits)

lemma convertCategories_char:
  "convertCategories opMap cm =
     map (\<lambda>(name, ids).
            DocNode CATEGORY name name [] []
              (map convertOperation (List.map_filter (map_get opMap) ids)) [])
       (filter (\<lambda>(name, ids). \<exists>opId \<in> set ids. map_get opMap opId \<noteq> None) cm)"
proof (induction cm)
  case Nil
  show ?case by simp
next
  case (Cons entry rest)
  obtain name ids where entry: "entry = (name, ids)" by (cases entry)
  have "(List.map_filter (map_get opMap) ids = []) = (\<forall>opId \<in> set ids. map_get opMap opId = None)"
    by (induction ids) (auto split: option.splits)
  then show ?case
    using Cons.IH
    by (auto simp add: entry collectOperations_map_filter createDocNode_def Let_def)
qed

text \<open>
  Claim C3. The categorized conversion is a total function: it raises nothing. For each
  entry of the category map it keeps, in order, the operations its ids resolve to and
  drops every id that is not the id of an operation of the specification; an entry none
  of whose ids resolves yields no node, every other entry yields one CATEGORY node.
  (An id carried by several operations resolves to the last of them, as the lookup map
  built by successive \<^verbatim>\<open>set\<close> calls does.)
\<close>

theorem convertWithCategories_skips:
  assumes "cacheConsistent specData"
  shows "convertWithCategories specData categoryMap =
     map (\<lambda>(name, ids).
            DocNode CATEGORY name name [] []
              (map convertOperation
                 (List.map_filter
                    (\<lambda>opId. find (\<lambda>op. op_id op = opId) (rev (operations specData))) ids))
              [])
       (filter (\<lambda>(name, ids). \<exists>opId \<in> set ids. opId \<in> op_id ` set (operations specData))
          categoryMap)
   \<and> (categoryMap \<noteq> [] \<longrightarrow>
        node_children (openRefToDocNode specData (Some categoryMap))
          = convertWithCategories specData categoryMap)"
proof -
  have get: "map_get (lookupMap specData)
               = (\<lambda>opId. find (\<lambda>op. op_id op = opId) (rev (operations specData)))"
    using lookupMap_get [OF assms] by (intro ext)
  have "convertWithCategories specData categoryMap =
     map (\<lambda>(name, ids).
            DocNode CATEGORY name name [] []
              (map convertOperation
                 (List.map_filter
                    (\<lambda>opId. find (\<lambda>op. op_id op = opId) (rev (operations specData))) ids))
              [])
       (filter (\<lambda>(name, ids). \<exists>opId \<in> set ids. opId \<in> op_id ` set (operations specData))
          categoryMap)"
    unfolding convertWithCategories_def convertCategories_char get find_Some_iff_image ..
  moreover have "categoryMap \<noteq> [] \<longrightarrow>
        node_children (openRefToDocNode specData (Some categoryMap))
          = convertWithCategories specData categoryMap"
    by (simp add: openRefToDocNode_def createDocNode_def Let_def)
  ultimately show ?thesis by blast
qed

theorem convertWithCategories_skips_witness:
  "cacheConsistent exSpec
   \<and> map node_id (convertWithCategories exSpec exCategoryMap) = [''db'', ''auth'']
   \<and> map node_type (convertWithCategories exSpec exCategoryMap) = [CATEGORY, CATEGORY]
   \<and> map (\<lambda>g. map node_id (node_children g)) (convertWithCategories exSpec exCategoryMap)
       = [[''select''], [''signin'']]
   \<and> map node_id (node_children (openRefToDocNode exSpec (Some exCategoryMap)))
       = [''db'', ''auth'']"
proof -
  have c: "cacheConsistent exSpec"
    by (simp add: cacheConsistent_def exSpec_def createSpecData_def)
  show ?thesis
    using c convertWithCategories_skips [OF c, of exCategoryMap]
    by (simp add: exSpec_def createSpecData_def exCategoryMap_def exOperation_def
        convertOperation_def createDocNode_def Let_def)
qed

text \<open>
  Claim C4. The content blocks of a converted example are, in this order, the PROSE
  block of the description, the CODE block of the code with the inferred language, the
  DATA block of \<^verbatim>\<open>dataSql\<close> (language sql, annotation type schema) and the DATA block
  of the response (language json, annotation type response), each present exactly when
  its source field is not empty.
\<close>

theorem convertExample_blocks:
  "node_content (convertExample example) =
     (if ex_description example \<noteq> []
      then [\<lparr>cb_type = PROSE, cb_language = None, cb_content = ex_description example,
              cb_annotations = None\<rparr>] else [])
     @ (if ex_code example \<noteq> []
        then [\<lparr>cb_type = CODE, cb_language = Some (inferLanguage (ex_code example)),
                cb_content = ex_code example, cb_annotations = None\<rparr>] else [])
     @ (if ex_dataSql example \<noteq> []
        then [\<lparr>cb_type = DATA, cb_language = Some ''sql'', cb_content = ex_dataSql example,
                cb_annotations = Some [(''type'', JStr ''schema'')]\<rparr>] else [])
     @ (if ex_response example \<noteq> []
        then [\<lparr>cb_type = DATA, cb_language = Some ''json'', cb_content = ex_response example,
                cb_annotations = Some [(''type'', JStr ''response'')]\<rparr>] else [])"
  by (simp add: convertExample_def createDocNode_def createContentBlock_def Let_def truthy_def
      new_Map_def map_set_def)

theorem convertExample_blocks_witness:
  "node_content (convertExample exExample) =
     [\<lparr>cb_type = PROSE, cb_language = None, cb_content = ''Pick rows'', cb_annotations = None\<rparr>,
      \<lparr>cb_type = CODE, cb_language = Some ''javascript'', cb_content = ''let x = 1'',
        cb_annotations = None\<rparr>,
      \<lparr>cb_type = DATA, cb_language = Some ''json'', cb_content = ''[]'',
        cb_annotations = Some [(''type'', JStr ''response'')]\<rparr>]"
  using convertExample_blocks [of exExample]
  by (simp add: exExample_def inferLanguage_def)

text \<open>
  Claim C9. The adapter stores a description both in the node's description field and
  as the first PROSE block of its content, so a converted operation or example with a
  non-empty description renders the description twice in immediate succession, right
  after the heading line.
\<close>

theorem description_rendered_twice:
  "(truthy (op_description operation) \<longrightarrow>
      formatNode (convertOperation operation) numbers =
        getHeading OPERATION (length numbers) @ '' '' @ join ''.'' (map natToString numbers)
          @ ''. '' @ op_title operation @ DOUBLE_NEWLINE
        @ op_description operation @ DOUBLE_NEWLINE
        @ op_description operation @ DOUBLE_NEWLINE
        @ (if truthy (op_notes operation) then op_notes operation @ DOUBLE_NEWLINE else [])
        @ formatChildren (map convertExample (op_examples operation)) numbers 1)
   \<and> (truthy (ex_description example) \<longrightarrow>
      formatNode (convertExample example) numbers =
        getHeading ITEM (length numbers) @ '' '' @ join ''.'' (map natToString numbers)
          @ ''. '' @ ex_name example @ DOUBLE_NEWLINE
        @ ex_description example @ DOUBLE_NEWLINE
        @ ex_description example @ DOUBLE_NEWLINE
        @ concat (map formatContent (tl (node_content (convertExample example)))))
   \<and> node_description (convertOperation operation) = op_description operation
   \<and> node_description (convertExample example) = ex_description example
   \<and> (truthy (op_description operation) \<longrightarrow>
        hd (node_content (convertOperation operation))
          = createContentBlock PROSE (op_description operation) None None)
   \<and> (truthy (ex_description example) \<longrightarrow>
        hd (node_content (convertExample example))
          = createContentBlock PROSE (ex_description example) None None)"
  by (simp add: convertOperation_def convertExample_def createDocNode_def Let_def
      formatContent_def createContentBlock_def)

theorem description_rendered_twice_witness:
  "formatNode (convertOperation exOperation) [1] =
     ''## 1. select'' @ DOUBLE_NEWLINE @ ''Reads'' @ DOUBLE_NEWLINE @ ''Reads'' @ DOUBLE_NEWLINE
   \<and> formatNode (convertExample exExample) [1, 1] =
     ''### 1.1. Basic'' @ DOUBLE_NEWLINE @ ''Pick rows'' @ DOUBLE_NEWLINE
       @ ''Pick rows'' @ DOUBLE_NEWLINE
       @ ''```javascript'' @ NEWLINE @ ''let x = 1'' @ NEWLINE @ ''```'' @ DOUBLE_NEWLINE
       @ NEWLINE @ ''// response'' @ NEWLINE @ ''/*'' @ NEWLINE @ ''[]'' @ NEWLINE @ ''*/''
       @ NEWLINE @ NEWLINE"
  using description_rendered_twice [of exOperation "[1]" exExample]
    description_rendered_twice [of exOperation "[1, 1]" exExample]
  by (simp add: exOperation_def exExample_def truthy_def getHeading_def DOUBLE_NEWLINE_def
      convertExample_def createDocNode_def createContentBlock_def formatContent_def
      inferLanguage_def orString_def NEWLINE_def new_Map_def map_set_def map_get_def getOr_def)

section \<open>The heading-tree adapter\<close>

text \<open>
  Claim C5. The kind of a converted section depends on its heading level only: level 2
  gives CATEGORY when \<^verbatim>\<open>mapH2ToCategory\<close> is set and SECTION otherwise, level 3 gives
  OPERATION, every level from 4 on gives ITEM, and every other level (1 included) gives
  SECTION. The child sections are converted by the same rule.
\<close>

theorem convertSection_kind:
  "node_type (convertSection sec mapH2ToCategory) =
     (if sec_level sec = 2 then (if mapH2ToCategory then CATEGORY else SECTION)
      else if sec_level sec = 3 then OPERATION
      else if sec_level sec \<ge> 4 then ITEM
      else SECTION)
   \<and> node_children (convertSection sec mapH2ToCategory) =
       map (\<lambda>child. convertSection child mapH2ToCategory) (sec_children sec)"
  by (cases sec) (simp add: createDocNode_def Let_def)

theorem convertSection_kind_witness:
  "node_type (convertSection exSection True) = CATEGORY
   \<and> node_type (convertSection exSection False) = SECTION
   \<and> map node_type (node_children (convertSection exSection True)) = [OPERATION, SECTION]
   \<and> map node_type (node_children (hd (node_children (convertSection exSection True))))
       = [ITEM, SECTION]"
  using convertSection_kind [of exSection True] convertSection_kind [of exSection False]
    convertSection_kind [of "MarkdownSection 3 ''Topic'' ''topic'' []
        [MarkdownSection 5 ''Deep'' ''deep'' [] [], MarkdownSection 1 ''One'' ''one'' [] []]" True]
  by (simp add: exSection_def createDocNode_def)

section \<open>The section-tree builder\<close>

lemma reify_agree:
  assumes "closedRange st lo hi" "hi \<le> length st" "hi \<le> length st'"
    and "\<forall>b. lo \<le> b \<and> b < hi \<longrightarrow> st' ! b = st ! b"
  shows "lo \<le> a \<Longrightarrow> a < hi \<Longrightarrow> reify st' a = reify st a"
proof (induction "hi - a" arbitrary: a rule: less_induct)
  case less
  have cell: "st' ! a = st ! a" using assms(4) less.prems by simp
  have kids: "\<forall>c \<in> set (c_children (st ! a)). a < c \<and> c < hi"
    using assms(1) less.prems unfolding closedRange_def by blast
  have f1: "filter (\<lambda>c. a < c \<and> c < length st) (c_children (st ! a)) = c_children (st ! a)"
    using kids assms(2) by (auto simp add: filter_id_conv)
  have f2: "filter (\<lambda>c. a < c \<and> c < length st') (c_children (st ! a)) = c_children (st ! a)"
    using kids assms(3) by (auto simp add: filter_id_conv)
  have "map (reify st') (c_children (st ! a)) = map (reify st) (c_children (st ! a))"
  proof (rule map_cong [OF refl])
    fix c assume "c \<in> set (c_children (st ! a))"
    then have "a < c" "c < hi" using kids by auto
    then show "reify st' c = reify st c"
      using less.hyps [of c] less.prems by simp
  qed
  then show ?case
    by (simp add: reify.simps [of st' a] reify.simps [of st a] cell f1 f2)
qed

lemma closedRange_agree:
  "closedRange st lo hi \<Longrightarrow> \<forall>b. lo \<le> b \<and> b < hi \<longrightarrow> st' ! b = st ! b \<Longrightarrow> closedRange st' lo hi"
  unfolding closedRange_def by metis

lemma closedKids_agree:
  assumes "closedKids st lo hi cs zs" "hi \<le> length st'"
    and "\<forall>b. lo \<le> b \<and> b < hi \<longrightarrow> st' ! b = st ! b"
  shows "closedKids st' lo hi cs zs"
proof -
  have cr: "closedRange st lo hi" and len: "hi \<le> length st" and lh: "lo \<le> hi"
    and rng: "\<forall>c \<in> set cs. lo \<le> c \<and> c < hi" and m: "map (reify st) cs = zs"
    using assms(1) by (simp_all add: closedKids_def)
  have "map (reify st') cs = map (reify st) cs"
  proof (rule map_cong [OF refl])
    fix c assume "c \<in> set cs"
    then have "lo \<le> c" "c < hi" using rng by auto
    then show "reify st' c = reify st c"
      by (rule reify_agree [OF cr len assms(2) assms(3)])
  qed
  then show ?thesis
    using len lh rng m assms(2) closedRange_agree [OF cr assms(3)]
    by (simp add: closedKids_def)
qed

lemma rel_length: "rel st cur lo hi kids zkids S F \<Longrightarrow> length S = length F"
  by (induction st cur lo hi kids zkids S F rule: rel.induct) auto

lemma rel_ConsD:
  assumes "rel st cur lo hi kids zkids (a # S) (f # F)"
  shows "kids \<noteq> []" "last kids = a" "closedKids st lo a (butlast kids) zkids"
    "lo \<le> a" "a < hi" "hi \<le> length st"
    "c_level (st ! a) = f_level f" "c_title (st ! a) = f_title f" "c_id (st ! a) = f_id f"
    "f_content f = c_content (st ! a) @ (if S = [] then cur else [])"
    "rel st cur (Suc a) hi (c_children (st ! a)) (f_children f) S F"
  using assms by simp_all

lemma rel_ConsI:
  assumes "kids \<noteq> []" "last kids = a" "closedKids st lo a (butlast kids) zkids"
    "lo \<le> a" "a < hi" "hi \<le> length st"
    "c_level (st ! a) = f_level f" "c_title (st ! a) = f_title f" "c_id (st ! a) = f_id f"
    "f_content f = c_content (st ! a) @ (if S = [] then cur else [])"
    "rel st cur (Suc a) hi (c_children (st ! a)) (f_children f) S F"
  shows "rel st cur lo hi kids zkids (a # S) (f # F)"
  using assms by simp

declare rel.simps(2) [simp del]

lemma rel_bounds:
  "rel st cur lo hi kids zkids S F \<Longrightarrow> a \<in> set S \<Longrightarrow> lo \<le> a \<and> a < hi"
proof (induction st cur lo hi kids zkids S F rule: rel.induct)
  case (2 st cur lo hi kids zkids b S f F)
  note d = rel_ConsD [OF "2.prems"(1)]
  show ?case
  proof (cases "a = b")
    case True
    then show ?thesis using d(4,5) by simp
  next
    case False
    then have "a \<in> set S" using "2.prems"(2) by simp
    then have "Suc b \<le> a \<and> a < hi" by (rule "2.IH" [OF d(11)])
    then show ?thesis using d(4) by simp
  qed
qed simp_all

lemma rel_last_bounds:
  "rel st cur lo hi kids zkids S F \<Longrightarrow> S \<noteq> [] \<Longrightarrow> lo \<le> last S \<and> last S < hi"
  using rel_bounds [of st cur lo hi kids zkids S F "last S"] by simp

lemma rel_agree:
  "rel st cur lo hi kids zkids S F \<Longrightarrow> hi \<le> length st' \<Longrightarrow>
   \<forall>b. lo \<le> b \<and> b < hi \<longrightarrow> st' ! b = st ! b \<Longrightarrow> rel st' cur lo hi kids zkids S F"
proof (induction st cur lo hi kids zkids S F rule: rel.induct)
  case (1 st cur lo hi kids zkids)
  have "closedKids st lo hi kids zkids" using "1.prems"(1) by simp
  then have "closedKids st' lo hi kids zkids"
    using "1.prems"(2,3) by (rule closedKids_agree)
  then show ?case by simp
next
  case (2 st cur lo hi kids zkids a S f F)
  note d = rel_ConsD [OF "2.prems"(1)]
  have lower: "\<forall>b. lo \<le> b \<and> b < a \<longrightarrow> st' ! b = st ! b"
    using "2.prems"(3) d(5) by simp
  have upper: "\<forall>b. Suc a \<le> b \<and> b < hi \<longrightarrow> st' ! b = st ! b"
    using "2.prems"(3) d(4) by simp
  have cell: "st' ! a = st ! a" using "2.prems"(3) d(4,5) by simp
  have "a \<le> length st'" using d(5) "2.prems"(2) by simp
  then have ck: "closedKids st' lo a (butlast kids) zkids"
    using d(3) lower closedKids_agree by blast
  have inner: "rel st' cur (Suc a) hi (c_children (st ! a)) (f_children f) S F"
    by (rule "2.IH" [OF d(11) "2.prems"(2) upper])
  show ?case
    using d(1,2,4,5,7,8,9,10) ck inner "2.prems"(2)
    by (intro rel_ConsI) (simp_all add: cell)
qed simp_all

lemma rel_single:
  "rel st cur lo hi kids zkids [a] F \<Longrightarrow> \<exists>f. F = [f]"
  by (cases F; cases "tl F") (auto simp add: rel.simps(2))

lemma pushContent_nth:
  "a < length st \<Longrightarrow> pushContent st a cs ! b =
     (if b = a then (st ! a)\<lparr>c_content := c_content (st ! a) @ cs\<rparr> else st ! b)"
  by (simp add: pushContent_def nth_list_update)

lemma pushContent_length [simp]: "length (pushContent st a cs) = length st"
  by (simp add: pushContent_def)

lemma rel_flush:
  "rel st cur lo hi kids zkids S F \<Longrightarrow> S \<noteq> [] \<Longrightarrow>
   rel (pushContent st (last S) cur) [] lo hi kids zkids S F"
proof (induction st cur lo hi kids zkids S F rule: rel.induct)
  case (2 st cur lo hi kids zkids a S f F)
  note d = rel_ConsD [OF "2.prems"(1)]
  let ?t = "last (a # S)"
  let ?st' = "pushContent st ?t cur"
  have "a \<le> ?t \<and> ?t < hi"
  proof (cases "S = []")
    case True
    then show ?thesis using d(5) by simp
  next
    case False
    then show ?thesis using rel_last_bounds [OF d(11) False] by simp
  qed
  then have t: "a \<le> ?t" "?t < hi" by simp_all
  have tlen: "?t < length st" using t d(6) by simp
  have lower: "\<forall>b. lo \<le> b \<and> b < a \<longrightarrow> ?st' ! b = st ! b"
    using t tlen by (simp add: pushContent_nth)
  have ck: "closedKids ?st' lo a (butlast kids) zkids"
    using d(3) lower d(5,6) closedKids_agree [of st lo a "butlast kids" zkids ?st'] by simp
  show ?case
  proof (cases "S = []")
    case True
    then have F: "F = []" using d(11) by (cases F) simp_all
    have upper: "\<forall>b. Suc a \<le> b \<and> b < hi \<longrightarrow> ?st' ! b = st ! b"
      using True tlen by (simp add: pushContent_nth)
    have "closedKids st (Suc a) hi (c_children (st ! a)) (f_children f)"
      using d(11) True F by simp
    then have "closedKids ?st' (Suc a) hi (c_children (st ! a)) (f_children f)"
      using upper d(6) closedKids_agree [of st "Suc a" hi _ _ ?st'] by simp
    then have inner: "rel ?st' [] (Suc a) hi (c_children (?st' ! a)) (f_children f) S F"
      using True F tlen by (simp add: pushContent_nth)
    show ?thesis
      using d(1,2,4,5,6,7,8,9,10) ck inner True tlen
      by (intro rel_ConsI) (simp_all add: pushContent_nth)
  next
    case False
    then have t': "?t = last S" by simp
    have "Suc a \<le> last S" using rel_last_bounds [OF d(11) False] by simp
    then have ne: "?t \<noteq> a" using t' by simp
    have "rel (pushContent st (last S) cur) [] (Suc a) hi (c_children (st ! a)) (f_children f) S F"
      by (rule "2.IH" [OF d(11) False])
    then have inner: "rel ?st' [] (Suc a) hi (c_children (?st' ! a)) (f_children f) S F"
      using t' ne tlen by (simp add: pushContent_nth)
    show ?thesis
      using d(1,2,4,5,6,7,8,9,10) ck inner False tlen ne
      by (intro rel_ConsI) (simp_all add: pushContent_nth)
  qed
qed simp_all

lemma rel_content:
  "rel st cur lo hi kids zkids S F \<Longrightarrow> S \<noteq> [] \<Longrightarrow>
   rel st (cur @ [c]) lo hi kids zkids S
     (butlast F @ [(last F)\<lparr>f_content := f_content (last F) @ [c]\<rparr>])"
proof (induction st cur lo hi kids zkids S F rule: rel.induct)
  case (2 st cur lo hi kids zkids a S f F)
  note d = rel_ConsD [OF "2.prems"(1)]
  show ?case
  proof (cases "S = []")
    case True
    then have F: "F = []" using d(11) by (cases F) simp_all
    have inner: "rel st (cur @ [c]) (Suc a) hi (c_children (st ! a))
                   (f_children (f\<lparr>f_content := f_content f @ [c]\<rparr>)) [] []"
      using d(11) True F by simp
    have "rel st (cur @ [c]) lo hi kids zkids [a] [f\<lparr>f_content := f_content f @ [c]\<rparr>]"
      using d(1,2,3,4,5,6,7,8,9,10) inner True
      by (intro rel_ConsI) simp_all
    then show ?thesis using True F by simp
  next
    case False
    then have Fne: "F \<noteq> []" using rel_length [OF d(11)] by auto
    have inner: "rel st (cur @ [c]) (Suc a) hi (c_children (st ! a)) (f_children f) S
                   (butlast F @ [(last F)\<lparr>f_content := f_content (last F) @ [c]\<rparr>])"
      by (rule "2.IH" [OF d(11) False])
    have "rel st (cur @ [c]) lo hi kids zkids (a # S)
            (f # (butlast F @ [(last F)\<lparr>f_content := f_content (last F) @ [c]\<rparr>]))"
      using d(1,2,3,4,5,6,7,8,9,10) inner False
      by (intro rel_ConsI) simp_all
    then show ?thesis using Fne by simp
  qed
qed simp_all

lemma closedRange_join:
  assumes "closedRange st lo a" "closedRange st (Suc a) hi" "a < hi"
    and "\<forall>c \<in> set (c_children (st ! a)). Suc a \<le> c \<and> c < hi"
  shows "closedRange st lo hi"
  unfolding closedRange_def
proof (intro allI impI ballI)
  fix b c assume b: "lo \<le> b \<and> b < hi" and c: "c \<in> set (c_children (st ! b))"
  consider "b < a" | "b = a" | "a < b" by linarith
  then show "b < c \<and> c < hi"
  proof cases
    case 1
    then have "b < c \<and> c < a" using assms(1) b c unfolding closedRange_def by blast
    then show ?thesis using assms(3) by simp
  next
    case 2
    then show ?thesis using assms(4) c by auto
  next
    case 3
    then have "Suc a \<le> b \<and> b < hi" using b by simp
    then show ?thesis using assms(2) c unfolding closedRange_def by blast
  qed
qed

lemma rel_close:
  assumes "rel st [] lo hi kids zkids [a] [f]"
  shows "closedKids st lo hi kids (zkids @ [closeFrame f])"
proof -
  note d = rel_ConsD [OF assms]
  have inner: "closedKids st (Suc a) hi (c_children (st ! a)) (f_children f)"
    using d(11) by simp
  have lower: "closedKids st lo a (butlast kids) zkids" by (rule d(3))
  have ch: "\<forall>c \<in> set (c_children (st ! a)). Suc a \<le> c \<and> c < hi"
    using inner by (simp add: closedKids_def)
  have cr: "closedRange st lo hi"
    using lower inner d(5) ch by (intro closedRange_join [of st lo a hi]) (simp_all add: closedKids_def)
  obtain cs where kids: "kids = cs @ [a]" using d(1,2) by (metis append_butlast_last_id)
  have lower': "closedKids st lo a cs zkids" using lower kids by simp
  have rng: "\<forall>c \<in> set kids. lo \<le> c \<and> c < hi"
    using lower' d(4,5) by (auto simp add: kids closedKids_def)
  have filt: "filter (\<lambda>c. a < c \<and> c < length st) (c_children (st ! a)) = c_children (st ! a)"
    using ch d(6) by (auto simp add: filter_id_conv)
  have "reify st a = closeFrame f"
    using d(7,8,9,10) inner
    by (simp add: reify.simps [of st a] filt closeFrame_def closedKids_def)
  moreover have "map (reify st) cs = zkids"
    using lower' by (simp add: closedKids_def)
  ultimately have m: "map (reify st) kids = zkids @ [closeFrame f]" by (simp add: kids)
  show ?thesis
    using cr rng m d(4,5,6) by (simp add: closedKids_def)
qed

lemma rel_pop:
  "rel st [] lo hi kids zkids (S @ [a]) (F @ [f]) \<Longrightarrow> S \<noteq> [] \<Longrightarrow>
   rel st [] lo hi kids zkids S
     (butlast F @ [(last F)\<lparr>f_children := f_children (last F) @ [closeFrame f]\<rparr>])"
proof (induction S arbitrary: lo kids zkids F)
  case Nil
  then show ?case by simp
next
  case (Cons b S)
  have len: "length (b # S) = length F" using rel_length [OF Cons.prems(1)] by simp
  then obtain g F' where F: "F = g # F'" by (cases F) auto
  have r: "rel st [] lo hi kids zkids (b # (S @ [a])) (g # (F' @ [f]))"
    using Cons.prems(1) F by simp
  note d = rel_ConsD [OF r]
  show ?case
  proof (cases "S = []")
    case True
    then have F': "F' = []" using len F by simp
    have "rel st [] (Suc b) hi (c_children (st ! b)) (f_children g) [a] [f]"
      using d(11) True F' by simp
    then have "closedKids st (Suc b) hi (c_children (st ! b)) (f_children g @ [closeFrame f])"
      by (rule rel_close)
    then have inner: "rel st [] (Suc b) hi (c_children (st ! b))
        (f_children (g\<lparr>f_children := f_children g @ [closeFrame f]\<rparr>)) [] []"
      by simp
    have "rel st [] lo hi kids zkids [b] [g\<lparr>f_children := f_children g @ [closeFrame f]\<rparr>]"
      using d(1,2,3,4,5,6,7,8,9,10) inner
      by (intro rel_ConsI) simp_all
    then show ?thesis using True F F' by simp
  next
    case False
    then have F'ne: "F' \<noteq> []" using len F by auto
    have "rel st [] (Suc b) hi (c_children (st ! b)) (f_children g) (S @ [a]) (F' @ [f])"
      using d(11) by simp
    then have inner: "rel st [] (Suc b) hi (c_children (st ! b)) (f_children g) S
        (butlast F' @ [(last F')\<lparr>f_children := f_children (last F') @ [closeFrame f]\<rparr>])"
      using False by (rule Cons.IH)
    have "rel st [] lo hi kids zkids (b # S)
        (g # (butlast F' @ [(last F')\<lparr>f_children := f_children (last F') @ [closeFrame f]\<rparr>]))"
      using d(1,2,3,4,5,6,7,8,9,10) inner False
      by (intro rel_ConsI) simp_all
    then show ?thesis using F F'ne by simp
  qed
qed

lemma pushChild_nth:
  "a < length st \<Longrightarrow> pushChild st a c ! b =
     (if b = a then (st ! a)\<lparr>c_children := c_children (st ! a) @ [c]\<rparr> else st ! b)"
  by (simp add: pushChild_def nth_list_update)

lemma pushChild_length [simp]: "length (pushChild st a c) = length st"
  by (simp add: pushChild_def)

lemma closedKids_empty: "n \<le> length st \<Longrightarrow> closedKids st n n [] []"
  by (simp add: closedKids_def closedRange_def)

lemma rel_open:
  assumes "closedKids st lo hi kids zkids" "hi = length st" "length st' = Suc hi"
    and "\<forall>b. lo \<le> b \<and> b < hi \<longrightarrow> st' ! b = st ! b"
    and "st' ! hi = newCell f" "f_content f = []" "f_children f = []"
  shows "rel st' [] lo (Suc hi) (kids @ [hi]) zkids [hi] [f]"
proof -
  have lh: "lo \<le> hi" using assms(1) by (simp add: closedKids_def)
  have ck: "closedKids st' lo hi kids zkids"
    using assms(1) assms(3) assms(4) closedKids_agree [of st lo hi kids zkids st'] by simp
  have inner: "rel st' [] (Suc hi) (Suc hi) (c_children (st' ! hi)) (f_children f) [] []"
    using assms(3,5,7) by (simp add: newCell_def closedKids_empty)
  show ?thesis
    using lh ck inner assms(3,5,6)
    by (intro rel_ConsI) (simp_all add: newCell_def)
qed

lemma rel_push:
  "rel st [] lo hi kids zkids S F \<Longrightarrow> S \<noteq> [] \<Longrightarrow> hi = length st \<Longrightarrow>
   f_content f = [] \<Longrightarrow> f_children f = [] \<Longrightarrow>
   rel (pushChild (st @ [newCell f]) (last S) hi) [] lo (Suc hi) kids zkids (S @ [hi]) (F @ [f])"
proof (induction st "[] :: MarkdownContent list" lo hi kids zkids S F rule: rel.induct)
  case (2 st lo hi kids zkids a S g F)
  note d = rel_ConsD [OF "2.prems"(1)]
  define t where "t = last (a # S)"
  define st' where "st' = pushChild (st @ [newCell f]) t hi"
  have "a \<le> t \<and> t < hi"
  proof (cases "S = []")
    case True
    then show ?thesis using d(5) by (simp add: t_def)
  next
    case False
    then show ?thesis using rel_last_bounds [OF d(11) False] by (simp add: t_def)
  qed
  then have t: "a \<le> t" "t < hi" by simp_all
  have hi: "hi = length st" by (rule "2.prems"(3))
  have tlen: "t < length (st @ [newCell f])" using t hi by simp
  have len': "length st' = Suc hi" using hi by (simp add: st'_def)
  have nth: "st' ! b = (if b = t
      then (st ! t)\<lparr>c_children := c_children (st ! t) @ [hi]\<rparr>
      else (st @ [newCell f]) ! b)" for b
    unfolding st'_def using pushChild_nth [OF tlen, of hi b] t hi by (simp add: nth_append)
  have lower: "\<forall>b. lo \<le> b \<and> b < a \<longrightarrow> st' ! b = st ! b"
    using t hi d(5) by (simp add: nth nth_append)
  have "a \<le> length st'" using d(5) len' by simp
  then have ck: "closedKids st' lo a (butlast kids) zkids"
    using d(3) lower closedKids_agree [of st lo a "butlast kids" zkids st'] by simp
  show ?case
  proof (cases "S = []")
    case True
    then have F: "F = []" using d(11) by (cases F) simp_all
    have ta: "t = a" using True by (simp add: t_def)
    have cell: "st' ! a = (st ! a)\<lparr>c_children := c_children (st ! a) @ [hi]\<rparr>"
      using ta by (simp add: nth)
    have upper: "\<forall>b. Suc a \<le> b \<and> b < hi \<longrightarrow> st' ! b = st ! b"
      using ta hi by (simp add: nth nth_append)
    have new: "st' ! hi = newCell f"
      using ta d(5) hi by (simp add: nth nth_append)
    have "closedKids st (Suc a) hi (c_children (st ! a)) (f_children g)"
      using d(11) True F by simp
    then have "rel st' [] (Suc a) (Suc hi) (c_children (st ! a) @ [hi]) (f_children g) [hi] [f]"
      using hi upper new "2.prems"(4,5) len'
      by (intro rel_open [of st]) simp_all
    then have inner: "rel st' [] (Suc a) (Suc hi) (c_children (st' ! a)) (f_children g)
                        (S @ [hi]) (F @ [f])"
      using True F cell by simp
    have "rel st' [] lo (Suc hi) kids zkids (a # (S @ [hi])) (g # (F @ [f]))"
      using d(1,2,4,5,7,8,9,10) ck inner True len'
      by (intro rel_ConsI) (simp_all add: cell)
    then show ?thesis by (simp add: st'_def t_def)
  next
    case False
    then have t': "t = last S" by (simp add: t_def)
    have "Suc a \<le> last S" using rel_last_bounds [OF d(11) False] by simp
    then have ne: "t \<noteq> a" using t' by simp
    have cell: "st' ! a = st ! a"
      using ne d(5) hi by (simp add: nth nth_append)
    have "rel (pushChild (st @ [newCell f]) (last S) hi) [] (Suc a) (Suc hi)
            (c_children (st ! a)) (f_children g) (S @ [hi]) (F @ [f])"
      by (rule "2.hyps" [OF d(11) False hi "2.prems"(4,5)])
    then have inner: "rel st' [] (Suc a) (Suc hi) (c_children (st' ! a)) (f_children g)
                        (S @ [hi]) (F @ [f])"
      using t' cell by (simp add: st'_def)
    have "rel st' [] lo (Suc hi) kids zkids (a # (S @ [hi])) (g # (F @ [f]))"
      using d(1,2,4,5,7,8,9,10) ck inner False len'
      by (intro rel_ConsI) (simp_all add: cell)
    then show ?thesis using False by (simp add: st'_def t_def)
  qed
qed simp_all

lemma rel_top:
  "rel st cur lo hi kids zkids (S @ [a]) (F @ [f]) \<Longrightarrow>
   a < hi \<and> hi \<le> length st \<and> c_level (st ! a) = f_level f"
proof (induction S arbitrary: lo kids zkids F)
  case Nil
  then have "length [a] = length (F @ [f])" using rel_length by fastforce
  then have "F = []" by simp
  then have r: "rel st cur lo hi kids zkids [a] [f]" using Nil by simp
  show ?case using rel_ConsD(5,6,7) [OF r] by simp
next
  case (Cons b S)
  have "length (b # S @ [a]) = length (F @ [f])" using rel_length [OF Cons.prems] by simp
  then obtain g F' where F: "F = g # F'" by (cases F) auto
  have "rel st cur lo hi kids zkids (b # (S @ [a])) (g # (F' @ [f]))"
    using Cons.prems F by simp
  then have "rel st cur (Suc b) hi (c_children (st ! b)) (f_children g) (S @ [a]) (F' @ [f])"
    by (rule rel_ConsD(11))
  then show ?case by (rule Cons.IH)
qed

lemma rel_closeAll:
  "rel st [] lo hi kids zkids S F \<Longrightarrow> map (reify st) kids = closeAll zkids (rev F)"
proof (induction "length S" arbitrary: S F zkids)
  case 0
  then have S: "S = []" by simp
  then have "F = []" using rel_length [OF "0.prems"] by simp
  then show ?case using "0.prems" S by (simp add: closedKids_def)
next
  case (Suc n)
  then obtain S' a where S: "S = S' @ [a]" by (metis length_0_conv nat.distinct(1) rev_exhaust)
  have len: "length S = length F" by (rule rel_length [OF Suc.prems])
  then obtain F' f where F: "F = F' @ [f]" using S by (cases F rule: rev_cases) auto
  have r: "rel st [] lo hi kids zkids (S' @ [a]) (F' @ [f])" using Suc.prems S F by simp
  show ?case
  proof (cases "S' = []")
    case True
    then have F': "F' = []" using len S F by simp
    have "closedKids st lo hi kids (zkids @ [closeFrame f])"
      using r True F' by (intro rel_close) simp
    then show ?thesis using F F' by (simp add: closedKids_def)
  next
    case False
    then have "F' \<noteq> []" using len S F by auto
    then obtain F'' g where F': "F' = F'' @ [g]" by (cases F' rule: rev_cases) auto
    have "rel st [] lo hi kids zkids S'
        (butlast F' @ [(last F')\<lparr>f_children := f_children (last F') @ [closeFrame f]\<rparr>])"
      using r False by (rule rel_pop)
    then have r': "rel st [] lo hi kids zkids S'
        (F'' @ [g\<lparr>f_children := f_children g @ [closeFrame f]\<rparr>])"
      using F' by simp
    have "n = length S'" using Suc.hyps(2) S by simp
    then have "map (reify st) kids
        = closeAll zkids (rev (F'' @ [g\<lparr>f_children := f_children g @ [closeFrame f]\<rparr>]))"
      using r' by (rule Suc.hyps(1))
    then show ?thesis using F F' by simp
  qed
qed

lemma popStack_Nil [simp]: "popStack st L [] = []"
  by (simp add: popStack.simps)

lemma popStack_snoc:
  "popStack st L (S @ [a]) = (if c_level (st ! a) \<ge> L then popStack st L S else S @ [a])"
  by (simp add: popStack.simps [of st L "S @ [a]"])

lemma popStack_dropWhile:
  "popStack st L stk = rev (dropWhile (\<lambda>a. L \<le> c_level (st ! a)) (rev stk))"
  by (induction stk rule: rev_induct) (simp_all add: popStack_snoc)

lemma rel_popStack:
  "rel st [] lo hi kids zkids S (rev zs) \<Longrightarrow>
   \<forall>a. a < hi \<longrightarrow> c_level (st2 ! a) = c_level (st ! a) \<Longrightarrow>
   rel st [] lo hi kids (fst (popFrames L zkids zs)) (popStack st2 L S)
     (rev (snd (popFrames L zkids zs)))"
proof (induction L zkids zs arbitrary: S rule: popFrames.induct)
  case (1 L roots)
  then have "S = []" using rel_length by fastforce
  then show ?case using "1.prems" by simp
next
  case (2 L roots f)
  have "length S = length (rev [f])" by (rule rel_length [OF "2.prems"(1)])
  then obtain a where S: "S = [a]" by (cases S) auto
  have r: "rel st [] lo hi kids roots ([] @ [a]) ([] @ [f])" using "2.prems"(1) S by simp
  have top: "a < hi" "c_level (st ! a) = f_level f" using rel_top [OF r] by simp_all
  then have lev: "c_level (st2 ! a) = f_level f" using "2.prems"(2) by simp
  show ?case
  proof (cases "f_level f \<ge> L")
    case True
    have "closedKids st lo hi kids (roots @ [closeFrame f])"
      using r by (intro rel_close) simp
    then show ?thesis using True S lev popStack_snoc [of st2 L "[]" a] by simp
  next
    case False
    then show ?thesis using S lev r popStack_snoc [of st2 L "[]" a] by simp
  qed
next
  case (3 L roots f g rest)
  have len: "length S = length (rev (f # g # rest))" by (rule rel_length [OF "3.prems"(1)])
  then have "S \<noteq> []" by auto
  then obtain S' a where S: "S = S' @ [a]" by (metis rev_exhaust)
  have S'ne: "S' \<noteq> []" using len S by auto
  have r: "rel st [] lo hi kids roots (S' @ [a]) ((rev rest @ [g]) @ [f])"
    using "3.prems"(1) S by simp
  have top: "a < hi" "c_level (st ! a) = f_level f" using rel_top [OF r] by simp_all
  then have lev: "c_level (st2 ! a) = f_level f" using "3.prems"(2) by simp
  show ?case
  proof (cases "f_level f \<ge> L")
    case True
    have "rel st [] lo hi kids roots S'
        (butlast (rev rest @ [g])
         @ [(last (rev rest @ [g]))\<lparr>f_children := f_children (last (rev rest @ [g])) @ [closeFrame f]\<rparr>])"
      using r S'ne by (rule rel_pop)
    then have "rel st [] lo hi kids roots S'
        (rev (g\<lparr>f_children := f_children g @ [closeFrame f]\<rparr> # rest))"
      by simp
    then have "rel st [] lo hi kids
        (fst (popFrames L roots (g\<lparr>f_children := f_children g @ [closeFrame f]\<rparr> # rest)))
        (popStack st2 L S')
        (rev (snd (popFrames L roots (g\<lparr>f_children := f_children g @ [closeFrame f]\<rparr> # rest))))"
      using "3.prems"(2) True by (intro "3.IH") simp_all
    then show ?thesis using True S lev popStack_snoc [of st2 L S' a] by simp
  next
    case False
    then show ?thesis using S lev "3.prems"(1) popStack_snoc [of st2 L S' a] by simp
  qed
qed

lemma sim_flush:
  assumes "sim s z" "stack s \<noteq> []"
  shows "rel (store (flushContent s)) [] 0 (length (store (flushContent s))) (rootSections s)
           (fst z) (stack s) (rev (snd z))"
    and "stack (flushContent s) = stack s" "rootSections (flushContent s) = rootSections s"
    and "currentContent (flushContent s) = []"
proof -
  have r: "rel (store s) (currentContent s) 0 (length (store s)) (rootSections s) (fst z)
             (stack s) (rev (snd z))"
    using assms(1) by (simp add: sim_def)
  show "rel (store (flushContent s)) [] 0 (length (store (flushContent s))) (rootSections s)
           (fst z) (stack s) (rev (snd z))"
  proof (cases "currentContent s = []")
    case True
    then show ?thesis using r by (simp add: flushContent_def)
  next
    case False
    then show ?thesis
      using rel_flush [OF r assms(2)] assms(2) by (simp add: flushContent_def)
  qed
  show "stack (flushContent s) = stack s" "rootSections (flushContent s) = rootSections s"
    "currentContent (flushContent s) = []"
    using assms(2) by (simp_all add: flushContent_def)
qed

lemma sim_heading:
  assumes "sim s z" "stack s \<noteq> []"
  shows "sim (processToken slugify s (HeadingTok L text)) (ruleStep slugify z (HeadingTok L text))
         \<and> stack (processToken slugify s (HeadingTok L text)) \<noteq> []"
proof -
  obtain zroots zs where z: "z = (zroots, zs)" by (cases z)
  define s1 where "s1 = flushContent s"
  define f where "f = \<lparr>f_level = L, f_title = text, f_id = slugify text, f_content = [],
                       f_children = []\<rparr>"
  define hi where "hi = length (store s1)"
  define st2 where "st2 = store s1 @ [newCell f]"
  define stk where "stk = popStack st2 L (stack s1)"
  define zroots' where "zroots' = fst (popFrames L zroots zs)"
  define zs' where "zs' = snd (popFrames L zroots zs)"
  have r1: "rel (store s1) [] 0 hi (rootSections s1) zroots (stack s1) (rev zs)"
    and cur1: "currentContent s1 = []"
    using sim_flush [OF assms] z by (simp_all add: s1_def hi_def)
  have lev: "\<forall>a. a < hi \<longrightarrow> c_level (st2 ! a) = c_level (store s1 ! a)"
    by (simp add: st2_def hi_def nth_append)
  have r2: "rel (store s1) [] 0 hi (rootSections s1) zroots' stk (rev zs')"
    unfolding zroots'_def zs'_def stk_def by (rule rel_popStack [OF r1 lev])
  have step: "ruleStep slugify z (HeadingTok L text) = (zroots', f # zs')"
    by (simp add: z zroots'_def zs'_def f_def split: prod.splits)
  have cell: "\<lparr>c_level = L, c_title = text, c_id = slugify text, c_content = [],
               c_children = []\<rparr> = newCell f"
    by (simp add: newCell_def f_def)
  have fc: "f_content f = []" "f_children f = []" by (simp_all add: f_def)
  show ?thesis
  proof (cases "stk = []")
    case True
    have res: "processToken slugify s (HeadingTok L text)
        = s1\<lparr>store := st2, rootSections := rootSections s1 @ [hi], stack := stk @ [hi]\<rparr>"
      using True
      by (simp add: processToken_def Let_def cell s1_def [symmetric] st2_def [symmetric]
          hi_def [symmetric] stk_def [symmetric])
    have "zs' = []" using rel_length [OF r2] True by simp
    then have ck: "closedKids (store s1) 0 hi (rootSections s1) zroots'"
      using r2 True by simp
    have "rel st2 [] 0 (Suc hi) (rootSections s1 @ [hi]) zroots' [hi] [f]"
      using ck fc
      by (intro rel_open [of "store s1"]) (simp_all add: st2_def hi_def nth_append)
    then show ?thesis
      using True \<open>zs' = []\<close> cur1
      by (simp add: res step sim_def st2_def hi_def)
  next
    case False
    have res: "processToken slugify s (HeadingTok L text)
        = s1\<lparr>store := pushChild st2 (last stk) hi, stack := stk @ [hi]\<rparr>"
      using False
      by (simp add: processToken_def Let_def cell s1_def [symmetric] st2_def [symmetric]
          hi_def [symmetric] stk_def [symmetric])
    have "rel (pushChild (store s1 @ [newCell f]) (last stk) hi) [] 0 (Suc hi) (rootSections s1)
            zroots' (stk @ [hi]) (rev zs' @ [f])"
      using r2 False fc by (intro rel_push) (simp_all add: hi_def)
    then show ?thesis
      using cur1 by (simp add: res step sim_def st2_def hi_def)
  qed
qed

lemma sim_content:
  assumes "sim s z" "stack s \<noteq> []"
  shows "sim (processToken slugify s (ContentTok t)) (ruleStep slugify z (ContentTok t))
         \<and> stack (processToken slugify s (ContentTok t)) \<noteq> []"
proof (cases "tokenToContent t")
  case None
  then show ?thesis using assms by (cases z) (simp add: processToken_def sim_def)
next
  case (Some c)
  obtain zroots zs where z: "z = (zroots, zs)" by (cases z)
  have r: "rel (store s) (currentContent s) 0 (length (store s)) (rootSections s) zroots
             (stack s) (rev zs)"
    using assms(1) z by (simp add: sim_def)
  have "zs \<noteq> []" using rel_length [OF r] assms(2) by auto
  then obtain f rest where zs: "zs = f # rest" by (cases zs) auto
  have "rel (store s) (currentContent s @ [c]) 0 (length (store s)) (rootSections s) zroots
          (stack s)
          (butlast (rev zs) @ [(last (rev zs))\<lparr>f_content := f_content (last (rev zs)) @ [c]\<rparr>])"
    using r assms(2) by (rule rel_content)
  then show ?thesis
    using Some assms(2) by (simp add: processToken_def sim_def z zs)
qed

lemma sim_run:
  "sim s z \<Longrightarrow> stack s \<noteq> [] \<Longrightarrow>
   sim (foldl (processToken slugify) s tokens) (foldl (ruleStep slugify) z tokens)
   \<and> stack (foldl (processToken slugify) s tokens) \<noteq> []"
proof (induction tokens arbitrary: s z)
  case Nil
  then show ?case by simp
next
  case (Cons t tokens)
  have "sim (processToken slugify s t) (ruleStep slugify z t)
        \<and> stack (processToken slugify s t) \<noteq> []"
    using Cons.prems sim_heading sim_content by (cases t) simp_all
  then have "sim (foldl (processToken slugify) (processToken slugify s t) tokens)
                 (foldl (ruleStep slugify) (ruleStep slugify z t) tokens)
             \<and> stack (foldl (processToken slugify) (processToken slugify s t) tokens) \<noteq> []"
    using Cons.IH by blast
  then show ?case by simp
qed

lemma processToken_content:
  "processToken slugify s (ContentTok ct) =
     (case tokenToContent ct of
        None \<Rightarrow> s
      | Some c \<Rightarrow> s\<lparr>currentContent := currentContent s @ [c]\<rparr>)"
  by (simp add: processToken_def split: option.splits)

lemma processToken_first_heading:
  "stack s = [] \<Longrightarrow> store s = [] \<Longrightarrow> rootSections s = [] \<Longrightarrow>
   processToken slugify s (HeadingTok L text) =
     \<lparr>store = [\<lparr>c_level = L, c_title = text, c_id = slugify text, c_content = [],
                c_children = []\<rparr>],
      rootSections = [0], stack = [0], currentContent = currentContent s\<rparr>"
  by (simp add: processToken_def flushContent_def Let_def)

lemma leading_processToken:
  "\<forall>t \<in> set pre. \<not> isHeading t \<Longrightarrow>
   foldl (processToken slugify) s pre = s\<lparr>currentContent := currentContent s @ contentsOf pre\<rparr>"
proof (induction pre arbitrary: s)
  case Nil
  show ?case by simp
next
  case (Cons t pre)
  then obtain ct where t: "t = ContentTok ct" by (cases t) auto
  show ?case
    using Cons.prems by (simp add: t Cons.IH processToken_content split: option.splits)
qed

lemma leading_ruleStep:
  "\<forall>t \<in> set pre. \<not> isHeading t \<Longrightarrow>
   foldl (ruleStep slugify) (roots, f # rest) pre
     = (roots, f\<lparr>f_content := f_content f @ contentsOf pre\<rparr> # rest)"
proof (induction pre arbitrary: f)
  case Nil
  show ?case by simp
next
  case (Cons t pre)
  then obtain ct where t: "t = ContentTok ct" by (cases t) auto
  show ?case
    using Cons.prems by (simp add: t Cons.IH split: option.splits)
qed

lemma sim_first_heading:
  assumes "f_content f = []" "f_children f = []"
  shows "sim \<lparr>store = [newCell f], rootSections = [0], stack = [0], currentContent = cur\<rparr>
           ([], [f\<lparr>f_content := cur\<rparr>])"
proof -
  have "rel [newCell f] cur 0 (Suc 0) [0] [] [0] [f\<lparr>f_content := cur\<rparr>]"
    using assms by (intro rel_ConsI) (simp_all add: newCell_def closedKids_empty)
  then show ?thesis by (simp add: sim_def)
qed

lemma buildSections_eq:
  "buildSections slugify tokens = stackRule slugify (hoistLeading tokens)"
proof -
  define pre where "pre = takeWhile (\<lambda>t. \<not> isHeading t) tokens"
  define post where "post = dropWhile (\<lambda>t. \<not> isHeading t) tokens"
  have tokens: "tokens = pre @ post" by (simp add: pre_def post_def)
  have pre: "\<forall>t \<in> set pre. \<not> isHeading t"
    unfolding pre_def by (auto dest: set_takeWhileD)
  show ?thesis
  proof (cases post)
    case Nil
    then have dw: "dropWhile (\<lambda>t. \<not> isHeading t) tokens = []" by (simp only: post_def)
    have "hoistLeading tokens = []" unfolding hoistLeading_def dw by simp
    moreover have "buildSections slugify tokens = []"
      using Nil tokens leading_processToken [OF pre, of slugify initialState]
      by (simp add: buildSections_def initialState_def)
    ultimately show ?thesis by (simp add: stackRule_def)
  next
    case (Cons h rest)
    have "isHeading h"
      using Cons hd_dropWhile [of "\<lambda>t. \<not> isHeading t" tokens] by (simp add: post_def)
    then obtain L ttl where h: "h = HeadingTok L ttl" by (cases h) auto
    define f where "f = \<lparr>f_level = L, f_title = ttl, f_id = slugify ttl, f_content = [],
                         f_children = []\<rparr>"
    define s1 where "s1 = \<lparr>store = [newCell f], rootSections = [0], stack = [0],
                           currentContent = contentsOf pre\<rparr>"
    define z1 where "z1 = ([] :: MarkdownSection list, [f\<lparr>f_content := contentsOf pre\<rparr>])"
    have hs: "foldl (processToken slugify) initialState (pre @ [h]) = s1"
      using leading_processToken [OF pre, of slugify initialState]
      by (simp add: h processToken_first_heading initialState_def s1_def newCell_def f_def)
    have dw: "dropWhile (\<lambda>t. \<not> isHeading t) tokens = h # rest"
      using Cons by (simp only: post_def)
    have hoist: "hoistLeading tokens = h # pre @ rest"
      unfolding hoistLeading_def dw pre_def by simp
    have zs: "foldl (ruleStep slugify) ([], []) (h # pre) = z1"
      using leading_ruleStep [OF pre, of slugify "[]" f "[]"]
      by (simp add: h f_def z1_def)
    have "sim s1 z1"
      unfolding s1_def z1_def by (rule sim_first_heading) (simp_all add: f_def)
    moreover have "stack s1 \<noteq> []" by (simp add: s1_def)
    ultimately have run: "sim (foldl (processToken slugify) s1 rest)
                            (foldl (ruleStep slugify) z1 rest)
        \<and> stack (foldl (processToken slugify) s1 rest) \<noteq> []"
      by (rule sim_run)
    define s where "s = foldl (processToken slugify) s1 rest"
    define z where "z = foldl (ruleStep slugify) z1 rest"
    have sz: "sim s z" and ne: "stack s \<noteq> []" using run by (simp_all add: s_def z_def)
    have hrun: "foldl (processToken slugify) initialState tokens = s"
      using hs by (simp add: tokens Cons s_def)
    have zrun: "foldl (ruleStep slugify) ([], []) (hoistLeading tokens) = z"
      using zs by (simp add: hoist z_def)
    have "rel (store (flushContent s)) [] 0 (length (store (flushContent s))) (rootSections s)
            (fst z) (stack s) (rev (snd z))"
      by (rule sim_flush(1) [OF sz ne])
    then have "map (reify (store (flushContent s))) (rootSections s)
                 = closeAll (fst z) (rev (rev (snd z)))"
      by (rule rel_closeAll)
    moreover have "buildSections slugify tokens
                     = map (reify (store (flushContent s))) (rootSections s)"
      by (simp add: buildSections_def hrun Let_def flushContent_def)
    ultimately show ?thesis
      by (simp add: stackRule_def zrun split: prod.splits)
  qed
qed

lemma leading_ruleStep_empty:
  "\<forall>t \<in> set pre. \<not> isHeading t \<Longrightarrow> foldl (ruleStep slugify) (roots, []) pre = (roots, [])"
proof (induction pre)
  case Nil
  show ?case by simp
next
  case (Cons t pre)
  then obtain ct where t: "t = ContentTok ct" by (cases t) auto
  show ?case
    using Cons.prems by (simp add: t Cons.IH split: option.splits)
qed

lemma stackRule_hoistLeading:
  assumes "contentsOf (takeWhile (\<lambda>t. \<not> isHeading t) tokens) = []"
  shows "stackRule slugify (hoistLeading tokens) = stackRule slugify tokens"
proof -
  define pre where "pre = takeWhile (\<lambda>t. \<not> isHeading t) tokens"
  define post where "post = dropWhile (\<lambda>t. \<not> isHeading t) tokens"
  have tokens: "tokens = pre @ post" by (simp add: pre_def post_def)
  have pre: "\<forall>t \<in> set pre. \<not> isHeading t"
    unfolding pre_def by (auto dest: set_takeWhileD)
  have none: "contentsOf pre = []" using assms by (simp add: pre_def)
  show ?thesis
  proof (cases post)
    case Nil
    then have dw: "dropWhile (\<lambda>t. \<not> isHeading t) tokens = []" by (simp only: post_def)
    have "hoistLeading tokens = []" unfolding hoistLeading_def dw by simp
    moreover have "foldl (ruleStep slugify) ([], []) tokens = ([], [])"
      using Nil tokens leading_ruleStep_empty [OF pre, of slugify "[]"] by simp
    ultimately show ?thesis by (simp add: stackRule_def)
  next
    case (Cons h rest)
    have dw: "dropWhile (\<lambda>t. \<not> isHeading t) tokens = h # rest"
      using Cons by (simp only: post_def)
    have hoist: "hoistLeading tokens = h # pre @ rest"
      unfolding hoistLeading_def dw pre_def by simp
    have "isHeading h"
      using Cons hd_dropWhile [of "\<lambda>t. \<not> isHeading t" tokens] by (simp add: post_def)
    then obtain L ttl where h: "h = HeadingTok L ttl" by (cases h) auto
    define f where "f = \<lparr>f_level = L, f_title = ttl, f_id = slugify ttl, f_content = [],
                         f_children = []\<rparr>"
    have first: "ruleStep slugify ([], []) h = ([], [f])" by (simp add: h f_def)
    have "foldl (ruleStep slugify) ([], [f]) pre = ([], [f\<lparr>f_content := f_content f @ contentsOf pre\<rparr>])"
      by (rule leading_ruleStep [OF pre])
    then have a: "foldl (ruleStep slugify) ([], []) (h # pre) = ([], [f])"
      using first none by (simp add: f_def)
    have b: "foldl (ruleStep slugify) ([], []) (pre @ [h]) = ([], [f])"
      using first leading_ruleStep_empty [OF pre, of slugify "[]"] by simp
    have split: "pre @ h # rest = tokens" using tokens Cons by simp
    have "foldl (ruleStep slugify) ([], []) (h # pre @ rest)
            = foldl (ruleStep slugify) ([], []) (pre @ h # rest)"
      using a b by (simp del: ruleStep.simps)
    then have "foldl (ruleStep slugify) ([], []) (hoistLeading tokens)
                 = foldl (ruleStep slugify) ([], []) tokens"
      by (simp only: hoist split)
    then show ?thesis by (simp only: stackRule_def)
  qed
qed

text \<open>
  Claim C6. For every token list the section tree the builder returns is the tree the
  stack rule gives: a heading of level \<open>L\<close> pops the stack while the level of its top is
  at least \<open>L\<close>, the new section becomes a child of the section then on top of the
  stack, or a root section when the stack is empty, and is pushed; content goes to the
  deepest open section. Content before the first heading, where no section is open, is
  kept by the code and goes to the first section; when the tokens before the first
  heading yield no content the two builders agree as they stand. The pop loop itself
  keeps exactly the part of the stack below the topmost section of smaller level.
\<close>

theorem buildSections_stack_rule:
  "buildSections slugify tokens = stackRule slugify (hoistLeading tokens)
   \<and> (contentsOf (takeWhile (\<lambda>t. \<not> isHeading t) tokens) = []
        \<longrightarrow> buildSections slugify tokens = stackRule slugify tokens)
   \<and> popStack st L stk = rev (dropWhile (\<lambda>a. L \<le> c_level (st ! a)) (rev stk))"
  using buildSections_eq [of slugify tokens] stackRule_hoistLeading [of tokens slugify]
    popStack_dropWhile [of st L stk] by simp

theorem buildSections_stack_rule_witness:
  "buildSections id exTokens =
     [MarkdownSection 2 ''A'' ''A''
        [\<lparr>mc_type = MdProse, mc_content = ''lead'', mc_language = None\<rparr>,
         \<lparr>mc_type = MdProse, mc_content = ''a1'', mc_language = None\<rparr>]
        [MarkdownSection 4 ''B'' ''B''
           [\<lparr>mc_type = MdCode, mc_content = ''x'', mc_language = Some ''text''\<rparr>] [],
         MarkdownSection 3 ''C'' ''C'' [] []],
      MarkdownSection 1 ''D'' ''D''
        [\<lparr>mc_type = MdProse, mc_content = ''d1'', mc_language = None\<rparr>]
        [MarkdownSection 2 ''E'' ''E'' [] []]]
   \<and> contentsOf (takeWhile (\<lambda>t. \<not> isHeading t) (ContentTok SpaceTok # tl exTokens)) = []
   \<and> buildSections id (ContentTok SpaceTok # tl exTokens)
       = stackRule id (ContentTok SpaceTok # tl exTokens)"
  using buildSections_stack_rule [of id exTokens]
    buildSections_stack_rule [of id "ContentTok SpaceTok # tl exTokens"]
  by (simp add: exTokens_def stackRule_def hoistLeading_def orString_def closeFrame_def)

section \<open>Output files\<close>

lemma pipeline_single_chunk: "pipeline (Readable_from [content]) path fs = fs(path \<mapsto> content)"
  by (simp add: pipeline_def Readable_from_def createWriteStream_def appendChunk_def)

text \<open>
  Claim C7. What the full-document write leaves in the files is the same for every
  threshold: the streamed write and the buffered write of the same text store the same
  content under the same path.
\<close>

theorem streaming_equivalence:
  "perform (generateFullDocWith t1 root options date) fs
     = perform (generateFullDocWith t2 root options date) fs
   \<and> perform (generateFullDoc root options date) fs
     = fs(outputDir options @ ''/'' @ orString (filenamePrefix options) ''documentation''
            @ ''-full-llms.txt''
          \<mapsto> generateHeader root options date @ formatNode root [])
   \<and> perform (WriteFileStream path content) fs = perform (WriteFile path content) fs"
  by (simp add: generateFullDoc_def generateFullDocWith_def Let_def pipeline_single_chunk)

theorem streaming_equivalence_witness:
  "perform (generateFullDocWith 0 exTree
      \<lparr>outputDir = ''out'', filenamePrefix = None, title = None, systemPrompt = None,
       includeMetadata = Some False\<rparr> ''May 1, 2025'') Map.empty
   = perform (generateFullDocWith (10 * 1024 * 1024) exTree
      \<lparr>outputDir = ''out'', filenamePrefix = None, title = None, systemPrompt = None,
       includeMetadata = Some False\<rparr> ''May 1, 2025'') Map.empty"
  using streaming_equivalence [of 0 exTree _ _ Map.empty "10 * 1024 * 1024"] by simp









text \<open>
  Claim C10. In a modular file the category header is followed at once by the heading
  line of the group itself: the group is rendered with the empty number path, which gives
  the level-1 heading \<^verbatim>\<open># . <title>\<close>. Its children are rendered with the paths
  \<open>[1]\<close>, \<open>[2]\<close>, and so on.
\<close>

theorem modular_group_heading:
  "generateModularDocs root options =
     map (\<lambda>category.
            WriteFile
              (outputDir options @ ''/'' @ orString (filenamePrefix options) ''documentation''
                 @ ''-'' @ node_id category @ ''-llms.txt'')
              (generateCategoryHeader root options category
               @ ''# . '' @ node_title category @ DOUBLE_NEWLINE
               @ (if truthy (node_description category)
                  then node_description category @ DOUBLE_NEWLINE else [])
               @ concat (map formatContent (node_content category))
               @ concat (map (\<lambda>k. formatNode (node_children category ! k) [Suc k])
                           [0..<length (node_children category)])))
         (filter (\<lambda>child. node_type child = CATEGORY) (node_children root))"
proof -
  have "formatNode category [] =
          ''# . '' @ node_title category @ DOUBLE_NEWLINE
          @ (if truthy (node_description category)
             then node_description category @ DOUBLE_NEWLINE else [])
          @ concat (map formatContent (node_content category))
          @ concat (map (\<lambda>k. formatNode (node_children category ! k) [Suc k])
                      [0..<length (node_children category)])"
    if "node_type category = CATEGORY" for category
    using that formatNode_non_root [of category "[]"] by (simp add: getHeading_def)
  then show ?thesis
    by (auto simp add: generateModularDocs_def Let_def)
qed

theorem modular_group_heading_witness:
  "generateModularDocs exGroups exOptions =
     [WriteFile ''out/demo-db-llms.txt''
        (''<SYSTEM>This is the developer documentation for Demo - Database.</SYSTEM>''
         @ DOUBLE_NEWLINE @ ''# Demo Database Documentation'' @ DOUBLE_NEWLINE
         @ ''# . Database'' @ DOUBLE_NEWLINE),
      WriteFile ''out/demo-auth-llms.txt''
        (''<SYSTEM>This is the developer documentation for Demo - Auth.</SYSTEM>''
         @ DOUBLE_NEWLINE @ ''# Demo Auth Documentation'' @ DOUBLE_NEWLINE
         @ ''# . Auth'' @ DOUBLE_NEWLINE)]"
  using modular_group_heading [of exGroups exOptions]
  by (simp add: exGroups_def exOptions_def orString_def truthy_def generateCategoryHeader_def)

end
